theory Spec2Isabelle
  imports Complex_Main "HOL-Library.Multiset"
begin

section \<open>Python values and errors\<close>

text \<open>
  The two modules verified here are \<^verbatim>\<open>insert_translated_text.py\<close> (text layout) and
  \<^verbatim>\<open>visualize_bounds.py\<close> (clustering, merging, prioritising and persisting bubbles).
  Python integers are unbounded and are modelled as \<^typ>\<open>int\<close>; strings are
  \<^typ>\<open>string\<close>.  Every exception the modelled code can raise is a value of
  \<open>py_error\<close>, and a fallible function returns \<open>py_error + 'a\<close>.
\<close>

datatype py_error = ValueError | ZeroDivisionError | TypeError

section \<open>Text layout: \<^verbatim>\<open>fit_text_to_bubble\<close>\<close>

subsection \<open>External collaborators\<close>

text \<open>
  The font and the standard library are not part of the repository.  They enter the model
  as an environment:
  \<^item> \<open>getbbox_right env sz s\<close> is \<^verbatim>\<open>ImageFont.truetype(font_path, sz).getbbox(s)[2]\<close>;
  \<^item> \<open>getbbox_bottom env sz s\<close> is \<^verbatim>\<open>ImageFont.truetype(font_path, sz).getbbox(s)[3]\<close>;
  \<^item> \<open>textwrap_wrap env text width\<close> is \<^verbatim>\<open>textwrap.wrap(text, width=width)\<close> for a
    positive width.
  The environment therefore stands for the \<^verbatim>\<open>font_path\<close> argument (the \<^verbatim>\<open>draw\<close> argument
  is never used by the function).  Pixel measurements are integers.
\<close>

record layout_env =
  getbbox_right :: "int \<Rightarrow> string \<Rightarrow> int"
  getbbox_bottom :: "int \<Rightarrow> string \<Rightarrow> int"
  textwrap_wrap :: "string \<Rightarrow> int \<Rightarrow> string list"

text \<open>
  \<^verbatim>\<open>textwrap.wrap\<close> raises \<^verbatim>\<open>ValueError("invalid width ... (must be > 0)")\<close> for
  every text when the width is not positive.
\<close>

definition py_textwrap_wrap :: "layout_env \<Rightarrow> string \<Rightarrow> int \<Rightarrow> py_error + string list" where
  "py_textwrap_wrap env text width =
     (if width \<le> 0 then Inl ValueError else Inr (textwrap_wrap env text width))"

subsection \<open>Arithmetic on the fill fractions\<close>

text \<open>
  The source compares integer pixel counts with \<^verbatim>\<open>bubble_width * 0.95\<close> and
  \<^verbatim>\<open>bubble_height * 0.95\<close>, and computes \<^verbatim>\<open>int(bubble_width * 0.9 / m)\<close>.  The model
  uses the exact rational value of these expressions: \<open>x \<le> w * 0.95\<close> is
  \<open>100 * x \<le> 95 * w\<close>, and \<^verbatim>\<open>int\<close> truncates the exact quotient towards zero.
\<close>

definition py_trunc_div :: "int \<Rightarrow> int \<Rightarrow> int" where
  "py_trunc_div a b = sgn a * sgn b * (\<bar>a\<bar> div \<bar>b\<bar>)"

definition fits_width :: "layout_env \<Rightarrow> int \<Rightarrow> int \<Rightarrow> string \<Rightarrow> bool" where
  "fits_width env sz bubble_width s \<longleftrightarrow> 100 * getbbox_right env sz s \<le> 95 * bubble_width"

definition fits_height :: "int \<Rightarrow> int \<Rightarrow> bool" where
  "fits_height bubble_height total_height \<longleftrightarrow> 100 * total_height \<le> 95 * bubble_height"

definition min_font_size :: int where
  "min_font_size = 12"

definition max_font_size :: int where
  "max_font_size = 64"

text \<open>\<^verbatim>\<open>range(max_font_size, min_font_size - 1, -1)\<close>: 64, 63, ..., 12.\<close>

definition candidate_sizes :: "int list" where
  "candidate_sizes = rev [min_font_size..max_font_size]"

definition line_height_of :: "layout_env \<Rightarrow> int \<Rightarrow> int" where
  "line_height_of env sz = getbbox_bottom env sz ''Tg'' + 4"

subsection \<open>\<^verbatim>\<open>str.split()\<close>\<close>

text \<open>
  \<^verbatim>\<open>text.split()\<close> splits at runs of whitespace and never yields an empty word.  The
  whitespace characters below are those of Python among the code points under 256.
\<close>

definition py_isspace :: "char \<Rightarrow> bool" where
  "py_isspace c = ((of_char c :: nat) \<in> {9, 10, 11, 12, 13, 28, 29, 30, 31, 32, 133, 160})"

fun split_from :: "string \<Rightarrow> string \<Rightarrow> string list" where
  "split_from cur [] = (if cur = [] then [] else [cur])"
| "split_from cur (c # cs) =
     (if py_isspace c then (if cur = [] then split_from [] cs else cur # split_from [] cs)
      else split_from (cur @ [c]) cs)"

definition py_split :: "string \<Rightarrow> string list" where
  "py_split text = split_from [] text"

subsection \<open>Width-aware wrap with hyphenation (source lines 181--236 and 248--295)\<close>

text \<open>
  The inner \<^verbatim>\<open>for i in range(len(remaining_word), 0, -1)\<close>: the longest prefix (with a
  trailing hyphen unless it is the whole remainder) whose measured width fits.  The result
  is the emitted segment and the new \<^verbatim>\<open>remaining_word\<close>.
\<close>

fun find_fit :: "layout_env \<Rightarrow> int \<Rightarrow> int \<Rightarrow> string \<Rightarrow> nat \<Rightarrow> (string \<times> string) option" where
  "find_fit env sz bw remaining_word 0 = None"
| "find_fit env sz bw remaining_word (Suc i) =
     (let test_segment =
            take (Suc i) remaining_word @ (if Suc i < length remaining_word then ''-'' else [])
      in if fits_width env sz bw test_segment
         then Some (test_segment, drop (Suc i) remaining_word)
         else find_fit env sz bw remaining_word i)"

lemma find_fit_shorter:
  "find_fit env sz bw rw i = Some (seg, rest) \<Longrightarrow> length rest < length rw \<or> rw = []"
  by (induction i) (auto simp: Let_def split: if_splits)

text \<open>The \<^verbatim>\<open>while remaining_word:\<close> loop; it appends to \<^verbatim>\<open>lines\<close>.\<close>

function hyphenate_word ::
  "layout_env \<Rightarrow> int \<Rightarrow> int \<Rightarrow> string \<Rightarrow> string list \<Rightarrow> string list" where
  "hyphenate_word env sz bw remaining_word lines =
     (if remaining_word = [] then lines
      else case find_fit env sz bw remaining_word (length remaining_word) of
             Some (test_segment, rest) \<Rightarrow> hyphenate_word env sz bw rest (lines @ [test_segment])
           | None \<Rightarrow> hyphenate_word env sz bw (tl remaining_word) (lines @ [[hd remaining_word]]))"
  by pat_completeness auto
termination
proof (relation "measure (\<lambda>(env, sz, bw, rw, lines). length rw)", goal_cases)
  case 1
  show ?case by simp
next
  case (2 env sz bw rw lines)
  then show ?case by (cases rw) auto
next
  case (3 env sz bw rw lines x2 seg rest)
  then show ?case using find_fit_shorter [of env sz bw rw "length rw" seg rest] by auto
qed

declare hyphenate_word.simps [simp del]

text \<open>One iteration of \<^verbatim>\<open>for word in words:\<close> on the pair (\<^verbatim>\<open>lines\<close>, \<^verbatim>\<open>current_line\<close>).\<close>

definition place_word ::
  "layout_env \<Rightarrow> int \<Rightarrow> int \<Rightarrow> string list \<times> string \<Rightarrow> string \<Rightarrow> string list \<times> string" where
  "place_word env sz bw st word =
     (let lines = fst st; current_line = snd st in
      if word = [] then st
      else let test_line = (if current_line \<noteq> [] then current_line @ '' '' @ word else word) in
        if fits_width env sz bw test_line then (lines, test_line)
        else if \<not> fits_width env sz bw word
          then (hyphenate_word env sz bw word
                  (if current_line \<noteq> [] then lines @ [current_line] else lines), [])
          else ((if current_line \<noteq> [] then lines @ [current_line] else lines), word))"

definition hyphenated_lines :: "layout_env \<Rightarrow> int \<Rightarrow> int \<Rightarrow> string \<Rightarrow> string list" where
  "hyphenated_lines env sz bw text =
     (let st = foldl (place_word env sz bw) ([], []) (py_split text)
      in if snd st \<noteq> [] then fst st @ [snd st] else fst st)"

subsection \<open>The scan over candidate sizes (source lines 159--241)\<close>

text \<open>
  \<^verbatim>\<open>int(bubble_width * 0.9 / font.getbbox("m")[2])\<close>: a zero glyph width raises
  \<^verbatim>\<open>ZeroDivisionError\<close>.
\<close>

definition wrap_columns :: "layout_env \<Rightarrow> int \<Rightarrow> int \<Rightarrow> py_error + int" where
  "wrap_columns env sz bw =
     (let m = getbbox_right env sz ''m''
      in if m = 0 then Inl ZeroDivisionError else Inr (py_trunc_div (9 * bw) (10 * m)))"

text \<open>
  The body of the \<^verbatim>\<open>for test_size in ...\<close> loop: \<open>Inr (Some r)\<close> is \<^verbatim>\<open>return r\<close>,
  \<open>Inr None\<close> falls through to the next size.  A font is represented by its size.
\<close>

definition try_size ::
  "layout_env \<Rightarrow> string \<Rightarrow> int \<Rightarrow> int \<Rightarrow> int \<Rightarrow> py_error + (int \<times> string list \<times> int) option" where
  "try_size env text bw bh test_size =
     (let line_height = line_height_of env test_size in
      case wrap_columns env test_size bw of
        Inl e \<Rightarrow> Inl e
      | Inr cols \<Rightarrow>
         (case py_textwrap_wrap env text cols of
            Inl e \<Rightarrow> Inl e
          | Inr lines \<Rightarrow>
              if list_all (fits_width env test_size bw) lines
                 \<and> fits_height bh (int (length lines) * line_height)
              then Inr (Some (test_size, lines, line_height))
              else let lines2 = hyphenated_lines env test_size bw text in
                if fits_height bh (int (length lines2) * line_height)
                then Inr (Some (test_size, lines2, line_height))
                else Inr None))"

fun fit_scan ::
  "layout_env \<Rightarrow> string \<Rightarrow> int \<Rightarrow> int \<Rightarrow> int list \<Rightarrow> py_error + (int \<times> string list \<times> int) option" where
  "fit_scan env text bw bh [] = Inr None"
| "fit_scan env text bw bh (test_size # rest) =
     (case try_size env text bw bh test_size of
        Inl e \<Rightarrow> Inl e
      | Inr (Some r) \<Rightarrow> Inr (Some r)
      | Inr None \<Rightarrow> fit_scan env text bw bh rest)"

text \<open>
  \<^verbatim>\<open>fit_text_to_bubble(draw, text, font_path, bubble_width, bubble_height, font_size)\<close>.
  The result is (font size, lines, line height).  The parameter \<open>font_size\<close> is kept as
  in the source, whose body never reads it.
\<close>

definition fit_text_to_bubble ::
  "layout_env \<Rightarrow> string \<Rightarrow> int \<Rightarrow> int \<Rightarrow> int \<Rightarrow> py_error + (int \<times> string list \<times> int)" where
  "fit_text_to_bubble env text bubble_width bubble_height font_size =
     (case fit_scan env text bubble_width bubble_height candidate_sizes of
        Inl e \<Rightarrow> Inl e
      | Inr (Some r) \<Rightarrow> Inr r
      | Inr None \<Rightarrow>
          Inr (min_font_size,
               hyphenated_lines env min_font_size bubble_width text,
               line_height_of env min_font_size))"


subsection \<open>Predicates used to state the layout properties\<close>

text \<open>
  A line \<open>loosely fits\<close> when its measured width is within the width budget or it is a
  single character (the hyphenation emits a character on a line of its own when not even
  one character fits).  \<open>wrap_ok\<close> says that at size \<open>sz\<close> the column count passed to
  \<^verbatim>\<open>textwrap.wrap\<close> can be computed and is at least 1.  \<open>wrap_inv\<close> is the invariant
  of the loop over the words.
\<close>

definition loose_fit :: "layout_env \<Rightarrow> int \<Rightarrow> int \<Rightarrow> string \<Rightarrow> bool" where
  "loose_fit env sz bw line \<longleftrightarrow> fits_width env sz bw line \<or> length line = 1"

definition wrap_ok :: "layout_env \<Rightarrow> int \<Rightarrow> int \<Rightarrow> bool" where
  "wrap_ok env bw sz \<longleftrightarrow>
     getbbox_right env sz ''m'' \<noteq> 0 \<and> 0 < py_trunc_div (9 * bw) (10 * getbbox_right env sz ''m'')"

definition wrap_inv :: "layout_env \<Rightarrow> int \<Rightarrow> int \<Rightarrow> string list \<times> string \<Rightarrow> bool" where
  "wrap_inv env sz bw st \<longleftrightarrow>
     list_all (loose_fit env sz bw) (fst st) \<and> (snd st = [] \<or> fits_width env sz bw (snd st))"

text \<open>
  The acceptance tests of one candidate size, in the words of the specification (section
  4.4, steps 1 and 2).  \<open>greedy_lines\<close> is the greedy wrap of the text for the column
  count \<open>0.9 * width / (width of m)\<close> at that size.  It is accepted when the measured
  width of every line is at most 0.95 times the rectangle width and the block height, the
  number of lines times the line height (the bottom of \<open>Tg\<close> plus 4), is at most 0.95
  times the rectangle height.  The hyphenated wrap is accepted when its block height is at
  most 0.95 times the rectangle height.
\<close>

definition greedy_lines :: "layout_env \<Rightarrow> string \<Rightarrow> int \<Rightarrow> int \<Rightarrow> string list" where
  "greedy_lines env text bw sz =
     textwrap_wrap env text (py_trunc_div (9 * bw) (10 * getbbox_right env sz ''m''))"

definition greedy_accepted :: "layout_env \<Rightarrow> string \<Rightarrow> int \<Rightarrow> int \<Rightarrow> int \<Rightarrow> bool" where
  "greedy_accepted env text bw bh sz \<longleftrightarrow>
     list_all (\<lambda>line. 100 * getbbox_right env sz line \<le> 95 * bw) (greedy_lines env text bw sz)
   \<and> 100 * (int (length (greedy_lines env text bw sz)) * (getbbox_bottom env sz ''Tg'' + 4))
        \<le> 95 * bh"

definition hyphenated_accepted :: "layout_env \<Rightarrow> string \<Rightarrow> int \<Rightarrow> int \<Rightarrow> int \<Rightarrow> bool" where
  "hyphenated_accepted env text bw bh sz \<longleftrightarrow>
     100 * (int (length (hyphenated_lines env sz bw text)) * (getbbox_bottom env sz ''Tg'' + 4))
        \<le> 95 * bh"

section \<open>Bubble geometry: \<^verbatim>\<open>visualize_bounds.py\<close>\<close>

subsection \<open>Text fragments and bounding boxes\<close>

text \<open>
  A text region is the dictionary produced by the OCR step; its keys \<^verbatim>\<open>x\<close>, \<^verbatim>\<open>y\<close>,
  \<^verbatim>\<open>width\<close>, \<^verbatim>\<open>height\<close>, \<^verbatim>\<open>text\<close> and \<^verbatim>\<open>confidence\<close> are the fields below (prefixed
  with \<open>reg_\<close>).  Regions are never modified by the code, so they are plain values.
\<close>

record region =
  reg_x :: int
  reg_y :: int
  reg_width :: int
  reg_height :: int
  reg_text :: string
  reg_confidence :: int

type_synonym box = "int \<times> int \<times> int \<times> int"

text \<open>\<^verbatim>\<open>min(...)\<close> and \<^verbatim>\<open>max(...)\<close> of a generator raise \<^verbatim>\<open>ValueError\<close> when it is empty.\<close>

fun py_min :: "int list \<Rightarrow> py_error + int" where
  "py_min [] = Inl ValueError"
| "py_min (v # vs) = Inr (foldl min v vs)"

fun py_max :: "int list \<Rightarrow> py_error + int" where
  "py_max [] = Inl ValueError"
| "py_max (v # vs) = Inr (foldl max v vs)"

text \<open>
  The four lines \<^verbatim>\<open>min_x = min(region['x'] for region in bubble)\<close> ...
  \<^verbatim>\<open>max_y = max(region['y'] + region['height'] for region in bubble)\<close>, which occur in
  the merger, the prioritiser and the writer.
\<close>

definition bubble_box :: "region list \<Rightarrow> py_error + box" where
  "bubble_box bubble =
     (case py_min (map reg_x bubble) of Inl e \<Rightarrow> Inl e | Inr min_x \<Rightarrow>
     (case py_min (map reg_y bubble) of Inl e \<Rightarrow> Inl e | Inr min_y \<Rightarrow>
     (case py_max (map (\<lambda>r. reg_x r + reg_width r) bubble) of Inl e \<Rightarrow> Inl e | Inr max_x \<Rightarrow>
     (case py_max (map (\<lambda>r. reg_y r + reg_height r) bubble) of Inl e \<Rightarrow> Inl e | Inr max_y \<Rightarrow>
        Inr (min_x, min_y, max_x, max_y)))))"

text \<open>The loop of source lines 98--104 that fills \<^verbatim>\<open>bubble_boxes\<close>.\<close>

fun boxes_of :: "region list list \<Rightarrow> py_error + box list" where
  "boxes_of [] = Inr []"
| "boxes_of (bubble # rest) =
     (case bubble_box bubble of Inl e \<Rightarrow> Inl e | Inr b \<Rightarrow>
     (case boxes_of rest of Inl e \<Rightarrow> Inl e | Inr bs \<Rightarrow> Inr (b # bs)))"

text \<open>The overlap test of source lines 119--120 and the union of lines 125--129.\<close>

fun boxes_overlap :: "box \<Rightarrow> box \<Rightarrow> bool" where
  "boxes_overlap (i0, i1, i2, i3) (j0, j1, j2, j3) \<longleftrightarrow> i0 < j2 \<and> i2 > j0 \<and> i1 < j3 \<and> i3 > j1"

fun box_union :: "box \<Rightarrow> box \<Rightarrow> box" where
  "box_union (i0, i1, i2, i3) (j0, j1, j2, j3) = (min i0 j0, min i1 j1, max i2 j2, max i3 j3)"

subsection \<open>The bounding box of a group, as a set\<close>

text \<open>
  The union rectangle of a non-empty group, written with the least and greatest
  coordinates of its regions, and its area (width times height).  The properties of the
  code are stated with these.
\<close>

definition box_of :: "region list \<Rightarrow> box" where
  "box_of bubble =
     (Min (reg_x ` set bubble), Min (reg_y ` set bubble),
      Max ((\<lambda>r. reg_x r + reg_width r) ` set bubble),
      Max ((\<lambda>r. reg_y r + reg_height r) ` set bubble))"

definition box_area :: "region list \<Rightarrow> int" where
  "box_area bubble =
     (case box_of bubble of (min_x, min_y, max_x, max_y) \<Rightarrow> (max_x - min_x) * (max_y - min_y))"

subsection \<open>Clustering: \<^verbatim>\<open>group_text_regions_by_distance\<close>\<close>

text \<open>
  \<^verbatim>\<open>DBSCAN(eps=eps, min_samples=1).fit(points).labels_\<close> belongs to scikit-learn.  Its
  model follows the library's algorithm: the neighbourhood of a point holds the points at
  Euclidean distance at most \<open>eps\<close> (the point itself included), a point is a core point
  when its neighbourhood has at least \<open>min_samples\<close> members, and clusters are grown by
  a depth-first search from each unlabelled core point in index order, numbered from 0.
  While the search runs a label is \<open>None\<close> (the library's \<open>-1\<close>, which is also the
  final label of noise) or \<open>Some k\<close> for cluster \<open>k\<close>.  Coordinates and \<open>eps\<close> are exact
  rationals, so the distance test is \<open>dx\<^sup>2 + dy\<^sup>2 \<le> eps\<^sup>2\<close>.  The library rejects
  \<open>eps \<le> 0\<close> with an \<^verbatim>\<open>InvalidParameterError\<close>, a subclass of \<^verbatim>\<open>ValueError\<close>.
\<close>

definition within_eps :: "rat \<Rightarrow> rat \<times> rat \<Rightarrow> rat \<times> rat \<Rightarrow> bool" where
  "within_eps eps p q \<longleftrightarrow>
     (fst p - fst q) * (fst p - fst q) + (snd p - snd q) * (snd p - snd q) \<le> eps * eps"

definition neighborhood :: "rat \<Rightarrow> (rat \<times> rat) list \<Rightarrow> nat \<Rightarrow> nat list" where
  "neighborhood eps points i =
     filter (\<lambda>j. within_eps eps (points ! i) (points ! j)) [0..<length points]"

definition unlabelled :: "nat option list \<Rightarrow> nat \<Rightarrow> bool" where
  "unlabelled labels i \<longleftrightarrow> i < length labels \<and> labels ! i = None"

lemma label_one_fewer:
  "i < length labels \<Longrightarrow> labels ! i = None \<Longrightarrow>
   length (filter (\<lambda>v. v = None) (labels[i := Some k])) < length (filter (\<lambda>v. v = None) labels)"
proof (induction labels arbitrary: i)
  case Nil
  then show ?case by simp
next
  case (Cons a labels)
  then show ?case by (cases i) auto
qed

text \<open>
  The depth-first search of the library's inner loop: label the point \<open>i\<close> if it has no
  label yet, push its unlabelled neighbours when it is a core point, and go on with the
  point popped from the stack (whose top is the head of the list) until the stack is empty.
\<close>

function dbscan_dfs ::
  "(nat \<Rightarrow> nat list) \<Rightarrow> (nat \<Rightarrow> bool) \<Rightarrow> nat \<Rightarrow> nat \<Rightarrow> nat list \<Rightarrow> nat option list
     \<Rightarrow> nat option list" where
  "dbscan_dfs neighborhoods is_core label_num i stack labels =
     (let labels1 = (if unlabelled labels i then labels[i := Some label_num] else labels);
          stack1 = (if unlabelled labels i \<and> is_core i
                    then rev (filter (unlabelled labels1) (neighborhoods i)) @ stack
                    else stack)
      in case stack1 of
           [] \<Rightarrow> labels1
         | v # stack2 \<Rightarrow> dbscan_dfs neighborhoods is_core label_num v stack2 labels1)"
  by pat_completeness auto
termination
proof (relation "measures [\<lambda>(nb, core, l, i, stack, labels). length (filter (\<lambda>v. v = None) labels),
                           \<lambda>(nb, core, l, i, stack, labels). length stack]", goal_cases)
  case 1
  show ?case by simp
next
  case (2 nb core l i stack labels labels1 stack1 v stack2)
  show ?case
  proof (cases "unlabelled labels i")
    case True
    then show ?thesis using 2 label_one_fewer [of i labels l] by (simp add: unlabelled_def)
  next
    case False
    then show ?thesis using 2 by auto
  qed
qed

declare dbscan_dfs.simps [simp del]

text \<open>The library's outer loop \<^verbatim>\<open>for i in range(n)\<close>, which starts a new cluster at every
  core point that is still unlabelled.\<close>

fun dbscan_outer ::
  "(nat \<Rightarrow> nat list) \<Rightarrow> (nat \<Rightarrow> bool) \<Rightarrow> nat list \<Rightarrow> nat \<Rightarrow> nat option list \<Rightarrow> nat option list" where
  "dbscan_outer neighborhoods is_core [] label_num labels = labels"
| "dbscan_outer neighborhoods is_core (i # rest) label_num labels =
     (if \<not> unlabelled labels i \<or> \<not> is_core i
      then dbscan_outer neighborhoods is_core rest label_num labels
      else dbscan_outer neighborhoods is_core rest (label_num + 1)
             (dbscan_dfs neighborhoods is_core label_num i [] labels))"

definition dbscan_labels :: "rat \<Rightarrow> nat \<Rightarrow> (rat \<times> rat) list \<Rightarrow> py_error + int list" where
  "dbscan_labels eps min_samples points =
     (if eps \<le> 0 then Inl ValueError
      else let n = length points;
               neighborhoods = neighborhood eps points;
               is_core = (\<lambda>i. min_samples \<le> length (neighborhoods i));
               labels = dbscan_outer neighborhoods is_core [0..<n] 0 (replicate n None)
           in Inr (map (\<lambda>l. case l of None \<Rightarrow> - 1 | Some k \<Rightarrow> int k) labels))"

text \<open>
  Source lines 76--80: \<^verbatim>\<open>grouped_regions\<close> is a dictionary from label to list of regions.
  A Python dictionary keeps its keys in insertion order, so it is an association list in
  which a new label goes to the end.
\<close>

fun add_to_group :: "(int \<times> region list) list \<Rightarrow> int \<Rightarrow> region \<Rightarrow> (int \<times> region list) list" where
  "add_to_group [] label r = [(label, [r])]"
| "add_to_group ((l, rs) # rest) label r =
     (if l = label then (l, rs @ [r]) # rest else (l, rs) # add_to_group rest label r)"

fun group_by_label ::
  "(int \<times> region list) list \<Rightarrow> int list \<Rightarrow> region list \<Rightarrow> (int \<times> region list) list" where
  "group_by_label grouped_regions (label # labels) (r # regions) =
     group_by_label (add_to_group grouped_regions label r) labels regions"
| "group_by_label grouped_regions _ _ = grouped_regions"

definition center_point :: "rat \<Rightarrow> rat \<Rightarrow> region \<Rightarrow> rat \<times> rat" where
  "center_point vertical_weight horizontal_penalty r =
     (let x = reg_x r + reg_width r div 2;
          y = reg_y r + reg_height r div 2
      in (of_int x * horizontal_penalty, of_int y * vertical_weight))"

definition group_text_regions_by_distance ::
  "region list \<Rightarrow> rat \<Rightarrow> rat \<Rightarrow> rat \<Rightarrow> py_error + region list list" where
  "group_text_regions_by_distance regions eps vertical_weight horizontal_penalty =
     (if regions = [] then Inr []
      else let points = map (center_point vertical_weight horizontal_penalty) regions in
        case dbscan_labels eps 1 points of
          Inl e \<Rightarrow> Inl e
        | Inr labels \<Rightarrow> Inr (map snd (group_by_label [] labels regions)))"

subsection \<open>Merging: \<^verbatim>\<open>merge_overlapping_bubbles\<close>\<close>

text \<open>
  The merger works in place: it calls \<^verbatim>\<open>extend\<close> on a group and \<^verbatim>\<open>pop\<close> on the list
  of groups it was given.  Lists are therefore objects in a store.  A reference is a
  number; \<open>group_lists h p\<close> is the content of the list of groups at \<open>p\<close> (the references
  of its groups, in order) and \<open>region_lists h g\<close> is the content of the group at \<open>g\<close>.
\<close>

type_synonym ref = nat

record py_heap =
  group_lists :: "ref \<Rightarrow> ref list"
  region_lists :: "ref \<Rightarrow> region list"

definition read_groups :: "py_heap \<Rightarrow> ref \<Rightarrow> region list list" where
  "read_groups h p = map (region_lists h) (group_lists h p)"

text \<open>\<^verbatim>\<open>xs.pop(j)\<close> for an index in range.\<close>

definition pop_at :: "nat \<Rightarrow> 'a list \<Rightarrow> 'a list" where
  "pop_at j xs = take j xs @ drop (Suc j) xs"

text \<open>
  Merging bubble \<open>j\<close> into bubble \<open>i\<close> (source lines 121--133):
  \<^verbatim>\<open>bubble_groups[i].extend(bubble_groups[j])\<close> changes the group object at index \<open>i\<close>,
  \<^verbatim>\<open>bubble_groups.pop(j)\<close> changes the list of groups itself, and the local list
  \<^verbatim>\<open>bubble_boxes\<close> gets the union box at \<open>i\<close> and loses entry \<open>j\<close>.
\<close>

definition merge_into :: "ref \<Rightarrow> nat \<Rightarrow> nat \<Rightarrow> py_heap \<Rightarrow> py_heap" where
  "merge_into p i j h =
     (let bubble_groups = group_lists h p;
          gi = bubble_groups ! i; gj = bubble_groups ! j;
          h1 = h\<lparr>region_lists := (region_lists h)(gi := region_lists h gi @ region_lists h gj)\<rparr>
      in h1\<lparr>group_lists := (group_lists h1)(p := pop_at j bubble_groups)\<rparr>)"

definition merge_boxes :: "nat \<Rightarrow> nat \<Rightarrow> box list \<Rightarrow> box list" where
  "merge_boxes i j bubble_boxes =
     pop_at j (bubble_boxes[i := box_union (bubble_boxes ! i) (bubble_boxes ! j)])"

lemma length_merge_into:
  "j < length (group_lists h p) \<Longrightarrow>
   length (group_lists (merge_into p i j h) p) = length (group_lists h p) - 1"
  by (simp add: merge_into_def Let_def pop_at_def)

text \<open>
  The innermost loop \<^verbatim>\<open>while j < len(bubble_groups)\<close> (source lines 113--137).  Its state
  is the store, the local list \<^verbatim>\<open>bubble_boxes\<close> and the flag \<^verbatim>\<open>merged\<close>.  The list
  \<^verbatim>\<open>bubble_boxes\<close> has as many entries as \<^verbatim>\<open>bubble_groups\<close> throughout (it is built with
  one box for each group and both are popped together), so the reads \<open>bubble_boxes ! i\<close> and
  \<open>bubble_boxes ! j\<close> are in range.
\<close>

function scan_j ::
  "ref \<Rightarrow> nat \<Rightarrow> nat \<Rightarrow> py_heap \<times> box list \<times> bool \<Rightarrow> py_heap \<times> box list \<times> bool" where
  "scan_j p i j (h, bubble_boxes, merged) =
     (if j < length (group_lists h p) then
        if boxes_overlap (bubble_boxes ! i) (bubble_boxes ! j)
        then scan_j p i j (merge_into p i j h, merge_boxes i j bubble_boxes, True)
        else scan_j p i (j + 1) (h, bubble_boxes, merged)
      else (h, bubble_boxes, merged))"
  by pat_completeness auto
termination
  by (relation "measure (\<lambda>(p, i, j, h, bs, m). length (group_lists h p) - j)")
     (auto simp: length_merge_into)

declare scan_j.simps [simp del]

lemma scan_j_length:
  "scan_j p i j s = s' \<Longrightarrow>
   length (group_lists (fst s') p) \<le> length (group_lists (fst s) p)
   \<and> (snd (snd s) \<longrightarrow> snd (snd s'))
   \<and> (snd (snd s') \<and> \<not> snd (snd s) \<longrightarrow>
        length (group_lists (fst s') p) < length (group_lists (fst s) p))"
proof (induction p i j s arbitrary: s' rule: scan_j.induct)
  case (1 p i j h bs m)
  show ?case
  proof (cases "j < length (group_lists h p)")
    case False
    then show ?thesis using "1.prems" by (auto simp: scan_j.simps)
  next
    case inr: True
    show ?thesis
    proof (cases "boxes_overlap (bs ! i) (bs ! j)")
      case True
      have eq: "scan_j p i j (merge_into p i j h, merge_boxes i j bs, True) = s'"
        using "1.prems" inr True by (simp add: scan_j.simps [of p i j h])
      have "length (group_lists (fst s') p) \<le> length (group_lists (merge_into p i j h) p)
            \<and> snd (snd s')"
        using "1.IH"(1) [OF inr True eq] by simp
      moreover have "length (group_lists (merge_into p i j h) p) < length (group_lists h p)"
        using inr by (simp add: length_merge_into)
      ultimately show ?thesis by simp
    next
      case False
      have eq: "scan_j p i (j + 1) (h, bs, m) = s'"
        using "1.prems" inr False by (simp add: scan_j.simps [of p i j h])
      show ?thesis using "1.IH"(2) [OF inr False eq] by simp
    qed
  qed
qed

text \<open>
  The middle loop \<^verbatim>\<open>while i < len(bubble_groups)\<close> (source lines 111--141), which
  leaves with \<^verbatim>\<open>break\<close> as soon as a pass of the inner loop has merged something.
\<close>

function scan_i :: "ref \<Rightarrow> nat \<Rightarrow> py_heap \<times> box list \<times> bool \<Rightarrow> py_heap \<times> box list \<times> bool" where
  "scan_i p i (h, bubble_boxes, merged) =
     (if i < length (group_lists h p) then
        (let s' = scan_j p i (i + 1) (h, bubble_boxes, merged)
         in if snd (snd s') then s' else scan_i p (i + 1) s')
      else (h, bubble_boxes, merged))"
  by pat_completeness auto
termination
proof (relation "measure (\<lambda>(p, i, h, bs, m). length (group_lists h p) - i)", goal_cases)
  case 1
  show ?case by simp
next
  case (2 p i h bs m s')
  from scan_j_length [OF 2(2) [symmetric]] 2(1,3) show ?case
    by (cases s') auto
qed

declare scan_i.simps [simp del]

lemma scan_i_length:
  "scan_i p i s = s' \<Longrightarrow>
   length (group_lists (fst s') p) \<le> length (group_lists (fst s) p)
   \<and> (snd (snd s') \<and> \<not> snd (snd s) \<longrightarrow>
        length (group_lists (fst s') p) < length (group_lists (fst s) p))"
proof (induction p i s arbitrary: s' rule: scan_i.induct)
  case (1 p i h bs m)
  show ?case
  proof (cases "i < length (group_lists h p)")
    case False
    then show ?thesis using "1.prems" by (auto simp: scan_i.simps)
  next
    case inr: True
    define t where "t = scan_j p i (i + 1) (h, bs, m)"
    note tl = scan_j_length [OF t_def [symmetric]]
    show ?thesis
    proof (cases "snd (snd t)")
      case True
      then have "s' = t" using "1.prems" inr by (simp add: scan_i.simps [of p i h] t_def Let_def)
      then show ?thesis using tl by simp
    next
      case False
      then have eq: "scan_i p (i + 1) t = s'"
        using "1.prems" inr by (simp add: scan_i.simps [of p i h] t_def Let_def)
      from "1.IH" [OF inr t_def False eq] tl False show ?thesis by auto
    qed
  qed
qed

text \<open>
  The outer loop \<^verbatim>\<open>while merged:\<close> (source lines 107--141): a pass that merged something
  is followed by another pass from \<open>i = 0\<close>.
\<close>

function merge_passes :: "ref \<Rightarrow> py_heap \<times> box list \<Rightarrow> py_heap \<times> box list" where
  "merge_passes p (h, bubble_boxes) =
     (let s' = scan_i p 0 (h, bubble_boxes, False)
      in if snd (snd s') then merge_passes p (fst s', fst (snd s')) else (fst s', fst (snd s')))"
  by pat_completeness auto
termination
proof (relation "measure (\<lambda>(p, h, bs). length (group_lists h p))", goal_cases)
  case 1
  show ?case by simp
next
  case (2 p h bs s')
  from scan_i_length [OF 2(1) [symmetric]] 2(2) show ?case by simp
qed

declare merge_passes.simps [simp del]

text \<open>
  \<^verbatim>\<open>merge_overlapping_bubbles(bubble_groups)\<close>: the argument is the reference \<open>p\<close> of the
  caller's list, the result is the new store and the returned reference.  An empty group
  makes \<^verbatim>\<open>min\<close> raise before anything is changed.
\<close>

definition merge_overlapping_bubbles :: "py_heap \<Rightarrow> ref \<Rightarrow> py_error + py_heap \<times> ref" where
  "merge_overlapping_bubbles h p =
     (if length (group_lists h p) \<le> 1 then Inr (h, p)
      else case boxes_of (read_groups h p) of
             Inl e \<Rightarrow> Inl e
           | Inr bubble_boxes \<Rightarrow> Inr (fst (merge_passes p (h, bubble_boxes)), p))"

text \<open>
  The caller (\<^verbatim>\<open>visualize_speech_bubbles\<close>, source lines 274--279) passes the list that
  the clusterer has just built: a new list of new groups.  \<open>store_groups\<close> is the store
  holding that list at reference 0 and its \<open>k\<close>-th group at reference \<open>k\<close>.
\<close>

definition store_groups :: "region list list \<Rightarrow> py_heap" where
  "store_groups groups =
     \<lparr>group_lists = (\<lambda>_. [])(0 := [0..<length groups]),
      region_lists = (\<lambda>g. if g < length groups then groups ! g else [])\<rparr>"

definition cluster_and_merge ::
  "region list \<Rightarrow> rat \<Rightarrow> rat \<Rightarrow> rat \<Rightarrow> py_error + region list list" where
  "cluster_and_merge regions eps vertical_weight horizontal_penalty =
     (case group_text_regions_by_distance regions eps vertical_weight horizontal_penalty of
        Inl e \<Rightarrow> Inl e
      | Inr groups \<Rightarrow>
         (case merge_overlapping_bubbles (store_groups groups) 0 of
            Inl e \<Rightarrow> Inl e
          | Inr (h, q) \<Rightarrow> Inr (read_groups h q)))"

subsection \<open>Prioritising: \<^verbatim>\<open>filter_and_prioritize_bubbles\<close>\<close>

text \<open>
  \<^verbatim>\<open>bubble_areas.sort(reverse=True)\<close> sorts pairs (area, bubble), where a bubble is a list
  of dictionaries.  Python compares two tuples at their first unequal component: the areas
  when they differ, else the bubbles.  Two lists are compared at their first unequal
  elements, here two dictionaries, and \<^verbatim>\<open><\<close> between dictionaries raises
  \<^verbatim>\<open>TypeError\<close>; when one list is a prefix of the other the shorter one is the smaller.
\<close>

fun list_lt :: "region list \<Rightarrow> region list \<Rightarrow> py_error + bool" where
  "list_lt [] ys = Inr (ys \<noteq> [])"
| "list_lt (x # xs) [] = Inr False"
| "list_lt (x # xs) (y # ys) = (if x = y then list_lt xs ys else Inl TypeError)"

definition tuple_lt :: "int \<times> region list \<Rightarrow> int \<times> region list \<Rightarrow> py_error + bool" where
  "tuple_lt a b =
     (if fst a \<noteq> fst b then Inr (fst a < fst b)
      else if snd a = snd b then Inr False
      else list_lt (snd a) (snd b))"

text \<open>
  The sort itself is the library's.  It raises as soon as a comparison raises, and every
  sorting algorithm compares the elements that end up next to each other, so the pairs
  with equal areas are compared whatever the algorithm; the model is an insertion sort into
  descending order that keeps equal elements in their original order.
\<close>

fun insert_desc ::
  "int \<times> region list \<Rightarrow> (int \<times> region list) list \<Rightarrow> py_error + (int \<times> region list) list" where
  "insert_desc a [] = Inr [a]"
| "insert_desc a (b # bs) =
     (case tuple_lt a b of
        Inl e \<Rightarrow> Inl e
      | Inr lt \<Rightarrow>
          if lt then (case insert_desc a bs of Inl e \<Rightarrow> Inl e | Inr r \<Rightarrow> Inr (b # r))
          else Inr (a # b # bs))"

fun py_sort_reverse :: "(int \<times> region list) list \<Rightarrow> py_error + (int \<times> region list) list" where
  "py_sort_reverse [] = Inr []"
| "py_sort_reverse (a # rest) =
     (case py_sort_reverse rest of Inl e \<Rightarrow> Inl e | Inr srt \<Rightarrow> insert_desc a srt)"

text \<open>The slice \<^verbatim>\<open>xs[:k]\<close>; a negative \<open>k\<close> counts from the end.\<close>

definition py_slice_to :: "int \<Rightarrow> 'a list \<Rightarrow> 'a list" where
  "py_slice_to k xs = (if 0 \<le> k then take (nat k) xs else take (nat (int (length xs) + k)) xs)"

definition bubble_area :: "region list \<Rightarrow> py_error + int" where
  "bubble_area bubble =
     (case bubble_box bubble of
        Inl e \<Rightarrow> Inl e
      | Inr (min_x, min_y, max_x, max_y) \<Rightarrow> Inr ((max_x - min_x) * (max_y - min_y)))"

text \<open>The loop of source lines 160--167 that fills \<^verbatim>\<open>bubble_areas\<close>.\<close>

fun areas_of :: "region list list \<Rightarrow> py_error + (int \<times> region list) list" where
  "areas_of [] = Inr []"
| "areas_of (bubble # rest) =
     (case bubble_area bubble of Inl e \<Rightarrow> Inl e | Inr area \<Rightarrow>
     (case areas_of rest of Inl e \<Rightarrow> Inl e | Inr r \<Rightarrow> Inr ((area, bubble) # r)))"

definition filter_and_prioritize_bubbles ::
  "region list list \<Rightarrow> int \<Rightarrow> py_error + region list list" where
  "filter_and_prioritize_bubbles bubble_groups max_bubbles =
     (if bubble_groups = [] \<or> int (length bubble_groups) \<le> max_bubbles then Inr bubble_groups
      else case areas_of bubble_groups of
             Inl e \<Rightarrow> Inl e
           | Inr bubble_areas \<Rightarrow>
              (case py_sort_reverse bubble_areas of
                 Inl e \<Rightarrow> Inl e
               | Inr srt \<Rightarrow> Inr (map snd (py_slice_to max_bubbles srt))))"

subsection \<open>Persisting: \<^verbatim>\<open>save_final_bounds\<close>\<close>

text \<open>
  A persisted bubble record is the dictionary appended to \<^verbatim>\<open>final_data['bubbles']\<close>
  (source lines 207--215); its keys are the fields below.
\<close>

record bubble_record =
  bubble_number :: int
  bub_x :: int
  bub_y :: int
  bub_width :: int
  bub_height :: int
  bub_text :: string
  text_regions :: "region list"

text \<open>\<^verbatim>\<open>" ".join(...)\<close>.\<close>

fun join_space :: "string list \<Rightarrow> string" where
  "join_space [] = []"
| "join_space [s] = s"
| "join_space (s # t # rest) = s @ '' '' @ join_space (t # rest)"

text \<open>
  The loop \<^verbatim>\<open>for i, bubble in enumerate(bubble_groups)\<close> of source lines 196--215, with
  \<open>i\<close> the index of the first bubble of the list.
\<close>

fun final_bubbles :: "nat \<Rightarrow> region list list \<Rightarrow> py_error + bubble_record list" where
  "final_bubbles i [] = Inr []"
| "final_bubbles i (bubble # rest) =
     (case bubble_box bubble of
        Inl e \<Rightarrow> Inl e
      | Inr (min_x, min_y, max_x, max_y) \<Rightarrow>
         (case final_bubbles (i + 1) rest of
            Inl e \<Rightarrow> Inl e
          | Inr recs \<Rightarrow>
              Inr (\<lparr>bubble_number = int i + 1, bub_x = min_x, bub_y = min_y,
                    bub_width = max_x - min_x, bub_height = max_y - min_y,
                    bub_text = join_space (map reg_text bubble),
                    text_regions = bubble\<rparr> # recs)))"

text \<open>
  \<^verbatim>\<open>save_final_bounds(data, bubble_groups, json_path, overwrite)\<close>.  The header fields
  copied from \<^verbatim>\<open>data\<close> and the file name are left out; \<open>file_exists\<close> is the answer of
  \<^verbatim>\<open>os.path.exists(output_path)\<close>.  The result is \<open>None\<close> when the function returns
  without writing, and otherwise the bubble records written to the file.
\<close>

definition save_final_bounds ::
  "region list list \<Rightarrow> bool \<Rightarrow> bool \<Rightarrow> py_error + bubble_record list option" where
  "save_final_bounds bubble_groups file_exists overwrite =
     (case final_bubbles 0 bubble_groups of
        Inl e \<Rightarrow> Inl e
      | Inr bubbles \<Rightarrow> if file_exists \<and> \<not> overwrite then Inr None else Inr (Some bubbles))"

subsection \<open>Notions used to state the geometry properties\<close>

text \<open>
  The centre of a region, as the clusterer computes it.
\<close>

definition center_x :: "region \<Rightarrow> int" where
  "center_x r = reg_x r + reg_width r div 2"

definition center_y :: "region \<Rightarrow> int" where
  "center_y r = reg_y r + reg_height r div 2"

text \<open>
  Boxes of which no earlier one overlaps a later one.  The overlap test is symmetric, so
  these are the boxes that are pairwise free of overlap.
\<close>

definition pairwise_apart :: "box list \<Rightarrow> bool" where
  "pairwise_apart bs = sorted_wrt (\<lambda>a b. \<not> boxes_overlap a b) bs"

text \<open>
  A property of the merger's state (store and boxes) is \<open>step_closed\<close> when every merge
  of bubble \<open>j\<close> into an earlier bubble \<open>i\<close> keeps it.  Two such properties are used:
  \<open>frame_inv\<close> compares the store with the store \<open>h0\<close> at the call (the list holds
  only groups it held at the call, and no other list and no group outside it has changed),
  and \<open>merge_inv\<close> says that the groups of the list are different objects, that
  \<^verbatim>\<open>bubble_boxes\<close> holds the bounding box of each group, none of them empty, and that the
  regions of all groups together are the multiset \<open>M\<close>.
\<close>

definition step_closed :: "ref \<Rightarrow> (py_heap \<times> box list \<Rightarrow> bool) \<Rightarrow> bool" where
  "step_closed p I \<longleftrightarrow>
     (\<forall>h bs i j. I (h, bs) \<and> i < j \<and> j < length (group_lists h p) \<longrightarrow>
        I (merge_into p i j h, merge_boxes i j bs))"

definition frame_inv :: "ref \<Rightarrow> py_heap \<Rightarrow> py_heap \<times> box list \<Rightarrow> bool" where
  "frame_inv p h0 s \<longleftrightarrow>
     set (group_lists (fst s) p) \<subseteq> set (group_lists h0 p)
   \<and> (\<forall>q. q \<noteq> p \<longrightarrow> group_lists (fst s) q = group_lists h0 q)
   \<and> (\<forall>g. g \<notin> set (group_lists h0 p) \<longrightarrow> region_lists (fst s) g = region_lists h0 g)"

definition merge_inv :: "ref \<Rightarrow> region multiset \<Rightarrow> py_heap \<times> box list \<Rightarrow> bool" where
  "merge_inv p M s \<longleftrightarrow>
     distinct (group_lists (fst s) p)
   \<and> list_all2 (\<lambda>g b. g \<noteq> [] \<and> box_of g = b) (read_groups (fst s) p) (snd s)
   \<and> mset (concat (read_groups (fst s) p)) = M"

text \<open>
  What a caller can see after \<^verbatim>\<open>merge_overlapping_bubbles\<close>: the returned reference, the
  content of the returned list, and the contents of the group objects \<open>gs\<close>.
\<close>

definition observe ::
  "ref list \<Rightarrow> py_error + py_heap \<times> ref \<Rightarrow> (ref \<times> ref list \<times> region list list) option" where
  "observe gs res =
     (case res of Inl e \<Rightarrow> None | Inr (h, q) \<Rightarrow> Some (q, group_lists h q, map (region_lists h) gs))"

section \<open>A concrete environment\<close>

text \<open>
  The general results below hold for every environment.  Concrete evaluations need one:
  a font and a model of \<^verbatim>\<open>textwrap.wrap\<close>.

  The model of \<^verbatim>\<open>textwrap.wrap\<close> (default options) follows the library's
  \<^verbatim>\<open>_wrap_chunks\<close> and \<^verbatim>\<open>_handle_long_word\<close> for texts without tabulators and
  hyphens: whitespace becomes a blank, the chunks are the maximal runs of blanks and of
  other characters, a line takes chunks while they fit, a chunk longer than the width is
  broken to fill the line, and a whitespace chunk is dropped at the start of every line but
  the first and at the end of every line.
\<close>

definition tw_space :: "char \<Rightarrow> bool" where
  "tw_space c = ((of_char c :: nat) \<in> {9, 10, 11, 12, 13, 32})"

definition munge_whitespace :: "string \<Rightarrow> string" where
  "munge_whitespace text = map (\<lambda>c. if tw_space c then CHR '' '' else c) text"

fun split_chunks :: "string \<Rightarrow> string list" where
  "split_chunks [] = []"
| "split_chunks (c # cs) =
     (case split_chunks cs of
        [] \<Rightarrow> [[c]]
      | ch # rest \<Rightarrow>
          if (c = CHR '' '') = (hd ch = CHR '' '') then (c # ch) # rest else [c] # ch # rest)"

definition is_blank :: "string \<Rightarrow> bool" where
  "is_blank s = list_all tw_space s"

fun take_fitting :: "int \<Rightarrow> int \<Rightarrow> string list \<Rightarrow> string list \<times> string list" where
  "take_fitting width cur_len [] = ([], [])"
| "take_fitting width cur_len (c # cs) =
     (if cur_len + int (length c) \<le> width
      then (case take_fitting width (cur_len + int (length c)) cs of (t, r) \<Rightarrow> (c # t, r))
      else ([], c # cs))"

definition chunk_weight :: "string list \<Rightarrow> nat" where
  "chunk_weight chunks = length (concat chunks) + length chunks"

lemma take_fitting_weight:
  "take_fitting width cur_len chunks = (t, r) \<Longrightarrow>
   chunk_weight r + length t \<le> chunk_weight chunks
   \<and> (t = [] \<longrightarrow> r = chunks \<and> (chunks = [] \<or> width < cur_len + int (length (hd chunks))))"
proof (induction chunks arbitrary: cur_len t r)
  case Nil
  then show ?case by simp
next
  case (Cons c cs)
  show ?case
  proof (cases "cur_len + int (length c) \<le> width")
    case True
    then obtain t' where t': "take_fitting width (cur_len + int (length c)) cs = (t', r)" "t = c # t'"
      using Cons.prems by (auto split: prod.splits)
    from Cons.IH [OF t'(1)] t'(2) show ?thesis by (simp add: chunk_weight_def)
  next
    case False
    then show ?thesis using Cons.prems by auto
  qed
qed

text \<open>
  The step for a chunk that is too long for any line: \<open>space_left\<close> characters of it go
  to the current line, the rest stays first in the list of chunks.
\<close>

definition handle_long_word :: "int \<Rightarrow> string list \<Rightarrow> string list \<Rightarrow> string list \<times> string list" where
  "handle_long_word width cur_line chunks =
     (if chunks \<noteq> [] \<and> width < int (length (hd chunks))
      then let space_left = nat (width - int (length (concat cur_line)))
           in (cur_line @ [take space_left (hd chunks)], drop space_left (hd chunks) # tl chunks)
      else (cur_line, chunks))"

definition drop_trailing_blank :: "string list \<Rightarrow> string list" where
  "drop_trailing_blank cur_line =
     (if cur_line \<noteq> [] \<and> is_blank (last cur_line) then butlast cur_line else cur_line)"

definition wrap_line :: "int \<Rightarrow> string list \<Rightarrow> bool \<Rightarrow> string list \<times> string list" where
  "wrap_line width chunks first =
     (let chunks1 = (if is_blank (hd chunks) \<and> \<not> first then tl chunks else chunks)
      in case take_fitting width 0 chunks1 of
           (cur_line, chunks2) \<Rightarrow>
             (case handle_long_word width cur_line chunks2 of
                (cur_line2, chunks3) \<Rightarrow> (drop_trailing_blank cur_line2, chunks3)))"

lemma wrap_line_weight:
  assumes "chunks \<noteq> []" and "1 \<le> width" and "wrap_line width chunks first = (cur_line, rest)"
  shows "chunk_weight rest < chunk_weight chunks"
proof -
  define chunks1 where "chunks1 = (if is_blank (hd chunks) \<and> \<not> first then tl chunks else chunks)"
  obtain t r where tr: "take_fitting width 0 chunks1 = (t, r)" by (cases "take_fitting width 0 chunks1")
  obtain l2 c3 where h: "handle_long_word width t r = (l2, c3)" by (cases "handle_long_word width t r")
  have rest: "rest = c3"
    using assms(3) tr h by (simp add: wrap_line_def chunks1_def [symmetric])
  note tw = take_fitting_weight [OF tr]
  have c1: "chunk_weight chunks1 \<le> chunk_weight chunks"
    using assms(1) by (cases chunks) (auto simp: chunks1_def chunk_weight_def)
  have c3: "chunk_weight c3 \<le> chunk_weight r"
    using h by (cases r) (auto simp: handle_long_word_def chunk_weight_def Let_def split: if_splits)
  show ?thesis
  proof (cases "chunks1 = chunks")
    case False
    then have "chunk_weight chunks1 < chunk_weight chunks"
      using assms(1) by (cases chunks) (auto simp: chunks1_def chunk_weight_def split: if_splits)
    with tw c3 rest show ?thesis by simp
  next
    case same: True
    show ?thesis
    proof (cases "t = []")
      case False
      then have "1 \<le> length t" by (cases t) auto
      moreover from tw have "chunk_weight r + length t \<le> chunk_weight chunks1" by simp
      ultimately show ?thesis using c1 c3 rest by simp
    next
      case True
      with tw same assms(1) have r: "r = chunks" and long: "width < int (length (hd chunks))"
        by auto
      obtain c cs where ccs: "chunks = c # cs" using assms(1) by (cases chunks) auto
      have "c3 = drop (nat width) c # cs"
        using h True r long ccs by (simp add: handle_long_word_def Let_def)
      moreover have "length (drop (nat width) c) < length c"
        using long ccs assms(2) by simp
      ultimately show ?thesis using rest ccs by (simp add: chunk_weight_def)
    qed
  qed
qed

function wrap_chunks :: "int \<Rightarrow> string list \<Rightarrow> string list \<Rightarrow> string list" where
  "wrap_chunks width chunks lines =
     (if chunks = [] \<or> width < 1 then lines
      else case wrap_line width chunks (lines = []) of
             (cur_line, rest) \<Rightarrow>
               wrap_chunks width rest (if cur_line \<noteq> [] then lines @ [concat cur_line] else lines))"
  by pat_completeness auto
termination
proof (relation "measure (\<lambda>(width, chunks, lines). chunk_weight chunks)", goal_cases)
  case 1
  show ?case by simp
next
  case (2 width chunks lines cur_line rest)
  then have "wrap_line width chunks (lines = []) = (cur_line, rest)" by simp
  from wrap_line_weight [OF _ _ this] 2 show ?case by simp
qed

definition plain_wrap :: "string \<Rightarrow> int \<Rightarrow> string list" where
  "plain_wrap text width = wrap_chunks width (split_chunks (munge_whitespace text)) []"

text \<open>
  The font: a glyph is as wide as the font size for \<open>W\<close>, three quarters of it for
  \<open>m\<close> and half of it for any other character; the width of a string is the sum of its
  glyphs, and the bottom of every bounding box is the font size.
\<close>

definition glyph_width :: "int \<Rightarrow> char \<Rightarrow> int" where
  "glyph_width sz c =
     (if c = CHR ''W'' then sz else if c = CHR ''m'' then (3 * sz) div 4 else sz div 2)"

definition demo_env :: layout_env where
  "demo_env =
     \<lparr>getbbox_right = (\<lambda>sz s. sum_list (map (glyph_width sz) s)),
      getbbox_bottom = (\<lambda>sz s. sz),
      textwrap_wrap = plain_wrap\<rparr>"

text \<open>
  A text region of height 1 at \<open>(x0, 0)\<close> with the given width, as a group of its own.
\<close>

definition strip :: "int \<Rightarrow> int \<Rightarrow> region list" where
  "strip x0 w = [\<lparr>reg_x = x0, reg_y = 0, reg_width = w, reg_height = 1,
                  reg_text = ''t'', reg_confidence = 90\<rparr>]"

text \<open>
  Text regions of width 100 and height 20, and of a given width and height 20.
\<close>

definition frag :: "int \<Rightarrow> int \<Rightarrow> string \<Rightarrow> region" where
  "frag x0 y0 t = \<lparr>reg_x = x0, reg_y = y0, reg_width = 100, reg_height = 20,
                   reg_text = t, reg_confidence = 90\<rparr>"

definition wide :: "int \<Rightarrow> int \<Rightarrow> string \<Rightarrow> region" where
  "wide x0 w t = \<lparr>reg_x = x0, reg_y = 0, reg_width = w, reg_height = 20,
                  reg_text = t, reg_confidence = 90\<rparr>"

section \<open>Properties of the text layout\<close>

subsection \<open>Lines produced by the hyphenation\<close>

lemma find_fit_fits:
  "find_fit env sz bw rw i = Some (seg, rest) \<Longrightarrow> fits_width env sz bw seg"
  by (induction i) (auto simp: Let_def split: if_splits)

lemma hyphenate_word_loose:
  "list_all (loose_fit env sz bw) lines \<Longrightarrow>
   list_all (loose_fit env sz bw) (hyphenate_word env sz bw rw lines)"
proof (induction env sz bw rw lines rule: hyphenate_word.induct)
  case (1 env sz bw rw lines)
  show ?case
  proof (cases "rw = []")
    case True
    then show ?thesis using "1.prems" by (simp add: hyphenate_word.simps)
  next
    case ne: False
    show ?thesis
    proof (cases "find_fit env sz bw rw (length rw)")
      case None
      have "loose_fit env sz bw [hd rw]" by (simp add: loose_fit_def)
      then have "list_all (loose_fit env sz bw) (lines @ [[hd rw]])"
        using "1.prems" by simp
      from "1.IH"(1) [OF ne None this] ne None show ?thesis
        by (simp add: hyphenate_word.simps [of env sz bw rw])
    next
      case (Some a)
      obtain seg rest where a: "a = (seg, rest)" by (cases a)
      have "loose_fit env sz bw seg"
        using find_fit_fits [of env sz bw rw "length rw" seg rest] Some a
        by (simp add: loose_fit_def)
      then have "list_all (loose_fit env sz bw) (lines @ [seg])"
        using "1.prems" by simp
      from "1.IH"(2) [OF ne Some a [symmetric] this] ne Some a show ?thesis
        by (simp add: hyphenate_word.simps [of env sz bw rw])
    qed
  qed
qed

lemma place_word_inv:
  "wrap_inv env sz bw st \<Longrightarrow> wrap_inv env sz bw (place_word env sz bw st word)"
  unfolding wrap_inv_def place_word_def Let_def
  by (auto intro!: hyphenate_word_loose simp: loose_fit_def)

lemma foldl_place_word_inv:
  "wrap_inv env sz bw st \<Longrightarrow> wrap_inv env sz bw (foldl (place_word env sz bw) st ws)"
  by (induction ws arbitrary: st) (simp_all add: place_word_inv)

lemma hyphenated_lines_loose:
  "list_all (loose_fit env sz bw) (hyphenated_lines env sz bw text)"
proof -
  have "wrap_inv env sz bw ([], [])" by (simp add: wrap_inv_def)
  from foldl_place_word_inv [OF this, of "py_split text"] show ?thesis
    by (auto simp: hyphenated_lines_def Let_def wrap_inv_def loose_fit_def)
qed

lemma try_size_Some:
  assumes "try_size env text bw bh s = Inr (Some (sz, lines, lh))"
  shows "sz = s \<and> lh = line_height_of env s \<and> wrap_ok env bw s
         \<and> fits_height bh (int (length lines) * lh)
         \<and> list_all (loose_fit env s bw) lines"
proof -
  obtain cols where cols: "wrap_columns env s bw = Inr cols"
    using assms by (cases "wrap_columns env s bw") (auto simp: try_size_def Let_def)
  obtain ls where ls: "py_textwrap_wrap env text cols = Inr ls"
    using assms cols by (cases "py_textwrap_wrap env text cols") (auto simp: try_size_def Let_def)
  have ok: "wrap_ok env bw s"
    using cols ls by (auto simp: wrap_ok_def wrap_columns_def py_textwrap_wrap_def Let_def split: if_splits)
  have "list_all (loose_fit env s bw) ls" if "list_all (fits_width env s bw) ls"
    using that by (induction ls) (auto simp: loose_fit_def)
  then show ?thesis
    using assms cols ls ok hyphenated_lines_loose [of env s bw "text"]
    by (auto simp: try_size_def Let_def split: if_splits)
qed

lemma try_size_no_error:
  "wrap_ok env bw s \<Longrightarrow> \<exists>r. try_size env text bw bh s = Inr r"
  by (auto simp: try_size_def wrap_ok_def wrap_columns_def py_textwrap_wrap_def Let_def)

lemma fit_scan_Some:
  "fit_scan env text bw bh sizes = Inr (Some r) \<Longrightarrow>
   \<exists>pre s post. sizes = pre @ s # post \<and> try_size env text bw bh s = Inr (Some r)
      \<and> list_all (\<lambda>s'. try_size env text bw bh s' = Inr None) pre"
proof (induction sizes)
  case Nil
  then show ?case by simp
next
  case (Cons a sizes)
  show ?case
  proof (cases "try_size env text bw bh a")
    case (Inl e)
    then show ?thesis using Cons.prems by simp
  next
    case (Inr res)
    show ?thesis
    proof (cases res)
      case None
      with Inr Cons.prems have "fit_scan env text bw bh sizes = Inr (Some r)" by simp
      from Cons.IH [OF this] obtain pre s post where
        "sizes = pre @ s # post" "try_size env text bw bh s = Inr (Some r)"
        "list_all (\<lambda>s'. try_size env text bw bh s' = Inr None) pre" by blast
      then have "a # sizes = (a # pre) @ s # post \<and> try_size env text bw bh s = Inr (Some r)
         \<and> list_all (\<lambda>s'. try_size env text bw bh s' = Inr None) (a # pre)"
        using Inr None by simp
      then show ?thesis by blast
    next
      case (Some r')
      with Inr Cons.prems have "r' = r" by simp
      with Inr Some have "a # sizes = [] @ a # sizes \<and> try_size env text bw bh a = Inr (Some r)
         \<and> list_all (\<lambda>s'. try_size env text bw bh s' = Inr None) []" by simp
      then show ?thesis by blast
    qed
  qed
qed

lemma fit_scan_None:
  "fit_scan env text bw bh sizes = Inr None \<Longrightarrow>
   list_all (\<lambda>s'. try_size env text bw bh s' = Inr None) sizes"
  by (induction sizes) (auto split: sum.splits option.splits)

lemma fit_scan_no_error:
  "list_all (wrap_ok env bw) sizes \<Longrightarrow> \<exists>r. fit_scan env text bw bh sizes = Inr r"
proof (induction sizes)
  case Nil
  then show ?case by simp
next
  case (Cons a sizes)
  then obtain r where "try_size env text bw bh a = Inr r"
    using try_size_no_error [of env bw a "text" bh] by auto
  then show ?case using Cons by (cases r) auto
qed

lemma candidate_split:
  assumes "candidate_sizes = pre @ s # post"
  shows "min_font_size \<le> s \<and> s \<le> max_font_size \<and> set pre = {s'. s < s' \<and> s' \<le> max_font_size}"
proof -
  have rv: "[min_font_size..max_font_size] = rev post @ s # rev pre"
    using assms by (simp add: candidate_sizes_def rev_swap)
  have srt: "sorted ([min_font_size..max_font_size])" and dst: "distinct [min_font_size..max_font_size]"
    by simp_all
  have mem: "s \<in> set [min_font_size..max_font_size]" using rv by simp
  have st: "set [min_font_size..max_font_size] = set post \<union> {s} \<union> set pre"
  proof -
    have "set [min_font_size..max_font_size] = set (rev post @ s # rev pre)" by (simp only: rv)
    then show ?thesis by auto
  qed
  have a: "\<forall>x\<in>set pre. s < x"
    using srt dst unfolding rv by (auto simp: sorted_append le_less)
  have b: "\<forall>x\<in>set post. x < s"
    using srt dst unfolding rv by (auto simp: sorted_append le_less)
  have "set pre = {s'. s < s' \<and> s' \<le> max_font_size}"
  proof (intro set_eqI iffI)
    fix x assume "x \<in> set pre"
    then show "x \<in> {s'. s < s' \<and> s' \<le> max_font_size}" using a st by auto
  next
    fix x assume x: "x \<in> {s'. s < s' \<and> s' \<le> max_font_size}"
    then have "x \<in> set [min_font_size..max_font_size]" using mem by auto
    then have "x \<in> set post \<union> {s} \<union> set pre" by (simp only: st)
    then show "x \<in> set pre" using b x by auto
  qed
  then show ?thesis using mem by auto
qed

subsection \<open>The first candidate size\<close>

lemma candidate_sizes_first: "candidate_sizes = 64 # rev [12..63]"
proof -
  have "[12..64] = [12..63] @ [64::int]" using upto_rec2 [of 12 64] by simp
  then show ?thesis by (simp add: candidate_sizes_def min_font_size_def max_font_size_def)
qed

lemma fit_first_size:
  "try_size env text bw bh 64 = Inr (Some r) \<Longrightarrow> fit_text_to_bubble env text bw bh fs = Inr r"
  by (simp add: fit_text_to_bubble_def candidate_sizes_first)

lemma fit_first_size_error:
  "try_size env text bw bh 64 = Inl e \<Longrightarrow> fit_text_to_bubble env text bw bh fs = Inl e"
  by (simp add: fit_text_to_bubble_def candidate_sizes_first)

lemma narrow_bubble_raises:
  assumes "0 \<le> bw" and "9 * bw < 10 * getbbox_right env 64 ''m''"
  shows "fit_text_to_bubble env text bw bh fs = Inl ValueError"
proof -
  let ?m = "getbbox_right env 64 ''m''"
  have m: "0 < ?m" using assms by linarith
  have "\<bar>9 * bw\<bar> div \<bar>10 * ?m\<bar> = 0" using assms m by (simp add: div_pos_pos_trivial)
  then have "py_trunc_div (9 * bw) (10 * ?m) = 0" by (simp add: py_trunc_div_def)
  then have "try_size env text bw bh 64 = Inl ValueError"
    using m by (simp add: try_size_def wrap_columns_def py_textwrap_wrap_def Let_def)
  then show ?thesis by (rule fit_first_size_error)
qed

subsection \<open>Claims about \<^verbatim>\<open>fit_text_to_bubble\<close>\<close>

text \<open>
  Claim C2.  The claim says that \<^verbatim>\<open>fit_text_to_bubble\<close> never raises and that for a
  rectangle of width 5 and height 200 and the text \<open>Supercalifragilisticoexpialidoso\<close> it
  returns a non-empty sequence of lines.  The code raises there: at the first candidate
  size 64 the column count \<^verbatim>\<open>int(5 * 0.9 / font.getbbox("m")[2])\<close> is 0 for every font
  whose \<open>m\<close> is wider than 4 pixels at that size (lemma \<open>narrow_bubble_raises\<close>), and
  \<^verbatim>\<open>textwrap.wrap\<close> rejects a width of 0 with \<^verbatim>\<open>ValueError\<close> before the hyphenation code
  is reached.  The theorem evaluates the call in the concrete environment.
\<close>

theorem fit_text_narrow_bubble_raises:
  "fit_text_to_bubble demo_env ''Supercalifragilisticoexpialidoso'' 5 200 16 = Inl ValueError"
  by (rule narrow_bubble_raises) (simp_all add: demo_env_def glyph_width_def)

text \<open>
  Claim C3, as amended.  Every layout returned at a font size above the minimum has a block
  height (number of lines times line height) of at most 0.95 times the rectangle height,
  and every line of it has a measured width of at most 0.95 times the rectangle width or is
  a single character: the hyphenated layout is accepted on its height alone, and it holds
  a character on a line of its own when that character alone is too wide.
\<close>

theorem fit_text_above_min_bounds:
  assumes "fit_text_to_bubble env text bw bh fs = Inr (sz, lines, lh)"
    and "min_font_size < sz"
  shows "fits_height bh (int (length lines) * lh) \<and> list_all (loose_fit env sz bw) lines"
proof (cases "fit_scan env text bw bh candidate_sizes")
  case (Inl e)
  then show ?thesis using assms by (simp add: fit_text_to_bubble_def)
next
  case (Inr res)
  show ?thesis
  proof (cases res)
    case None
    then show ?thesis using assms Inr by (simp add: fit_text_to_bubble_def)
  next
    case (Some r)
    then have r: "r = (sz, lines, lh)" using assms Inr by (simp add: fit_text_to_bubble_def)
    from fit_scan_Some [of env "text" bw bh candidate_sizes r] Inr Some r
    obtain s where "try_size env text bw bh s = Inr (Some (sz, lines, lh))" by auto
    from try_size_Some [OF this] have "sz = s"
      and "fits_height bh (int (length lines) * lh)"
      and "list_all (loose_fit env s bw) lines" by blast+
    then show ?thesis by simp
  qed
qed

text \<open>
  The layout of the specification's example (\<open>Hola mundo\<close> in a rectangle of width 200
  and height 80), to which the theorem applies.
\<close>

theorem fit_text_above_min_bounds_witness:
  "fit_text_to_bubble demo_env ''Hola mundo'' 200 80 16 = Inr (37, [''Hola mundo''], 41)
   \<and> min_font_size < 37
   \<and> fits_height 80 (int (length [''Hola mundo'']) * 41)
   \<and> list_all (loose_fit demo_env 37 200) [''Hola mundo'']"
proof -
  have a: "fit_text_to_bubble demo_env ''Hola mundo'' 200 80 16 = Inr (37, [''Hola mundo''], 41)"
    by code_simp
  have b: "min_font_size < 37" by (simp add: min_font_size_def)
  from fit_text_above_min_bounds [OF a b] a b show ?thesis by simp
qed

text \<open>
  Claim C3 as stated fails: in a rectangle of width 60 and height 200 the text \<open>W\<close> is
  laid out at size 64, above the minimum, on one line that is 64 pixels wide, more than
  0.95 times 60.
\<close>

theorem fit_text_overflow_above_min:
  "fit_text_to_bubble demo_env ''W'' 60 200 16 = Inr (64, [''W''], 68)
   \<and> min_font_size < 64
   \<and> \<not> list_all (fits_width demo_env 64 60) [''W'']"
proof -
  have "try_size demo_env ''W'' 60 200 64 = Inr (Some (64, [''W''], 68))" by code_simp
  then have "fit_text_to_bubble demo_env ''W'' 60 200 16 = Inr (64, [''W''], 68)"
    by (rule fit_first_size)
  moreover have "\<not> list_all (fits_width demo_env 64 60) [''W'']" by code_simp
  ultimately show ?thesis by (simp add: min_font_size_def)
qed

text \<open>
  Claim C1 as stated fails, also when the caller passes 64 as the maximum size: for the
  text \<open>W W\<close> in a rectangle of width 60 and height 200 the result is the layout of size
  64, whose lines do not fit the width, although at size 57 the loop body finds a layout
  whose lines fit the width and whose height fits.
\<close>

theorem fit_text_not_largest_fitting:
  "fit_text_to_bubble demo_env ''W W'' 60 200 64 = Inr (64, [''W'', ''W''], 68)
   \<and> \<not> list_all (fits_width demo_env 64 60) [''W'', ''W'']
   \<and> try_size demo_env ''W W'' 60 200 57 = Inr (Some (57, [''W'', ''W''], 61))
   \<and> list_all (fits_width demo_env 57 60) [''W'', ''W'']
   \<and> fits_height 200 (int (length [''W'', ''W'']) * 61)"
proof -
  have "try_size demo_env ''W W'' 60 200 64 = Inr (Some (64, [''W'', ''W''], 68))" by code_simp
  then have "fit_text_to_bubble demo_env ''W W'' 60 200 64 = Inr (64, [''W'', ''W''], 68)"
    by (rule fit_first_size)
  moreover have "\<not> list_all (fits_width demo_env 64 60) [''W'', ''W'']" by code_simp
  moreover have "try_size demo_env ''W W'' 60 200 57 = Inr (Some (57, [''W'', ''W''], 61))"
    by code_simp
  moreover have "list_all (fits_width demo_env 57 60) [''W'', ''W'']" by code_simp
  moreover have "fits_height 200 (int (length [''W'', ''W'']) * 61)" by code_simp
  ultimately show ?thesis by simp
qed

subsection \<open>The loop body against the acceptance tests\<close>

lemma fits_width_eta: "fits_width env sz bw = (\<lambda>line. 100 * getbbox_right env sz line \<le> 95 * bw)"
  by (rule ext) (simp add: fits_width_def)

lemma try_size_None_iff:
  "try_size env text bw bh s = Inr None \<longleftrightarrow>
     wrap_ok env bw s \<and> \<not> greedy_accepted env text bw bh s \<and> \<not> hyphenated_accepted env text bw bh s"
  by (auto simp: try_size_def wrap_ok_def wrap_columns_def py_textwrap_wrap_def Let_def
      greedy_accepted_def hyphenated_accepted_def greedy_lines_def fits_width_eta fits_height_def
      line_height_of_def)

lemma try_size_Some_iff:
  "try_size env text bw bh s = Inr (Some r) \<longleftrightarrow>
     wrap_ok env bw s
   \<and> (greedy_accepted env text bw bh s
        \<and> r = (s, greedy_lines env text bw s, getbbox_bottom env s ''Tg'' + 4)
      \<or> \<not> greedy_accepted env text bw bh s \<and> hyphenated_accepted env text bw bh s
        \<and> r = (s, hyphenated_lines env s bw text, getbbox_bottom env s ''Tg'' + 4))"
  by (auto simp: try_size_def wrap_ok_def wrap_columns_def py_textwrap_wrap_def Let_def
      greedy_accepted_def hyphenated_accepted_def greedy_lines_def fits_width_eta fits_height_def
      line_height_of_def)

subsection \<open>The largest accepted size\<close>

text \<open>
  Claim C1, as amended.  Let the caller pass the scan's own upper bound 64 as maximum font
  size.  If the column count for \<^verbatim>\<open>textwrap.wrap\<close> is at least 1 at every candidate size,
  the call returns a layout.  Whenever it returns a layout of size \<open>sz\<close>, then \<open>sz\<close>
  lies between the minimum and the maximum size, the line height is the bottom of \<open>Tg\<close>
  at \<open>sz\<close> plus 4, and at every larger candidate size neither test succeeds: the greedy
  wrap does not have every line within 0.95 times the width and its block within 0.95 times
  the height, and the hyphenated wrap does not have its block within 0.95 times the height.
  The layout is the greedy wrap of size \<open>sz\<close> when that passes its test (all line widths
  and the block height); else the hyphenated wrap of size \<open>sz\<close> when its block height
  fits (its line widths are not tested); else no size passes a test, \<open>sz\<close> is the
  minimum size and the layout is its hyphenated wrap.
\<close>

theorem fit_text_largest_accepted:
  assumes "font_size = max_font_size"
  shows "(list_all (wrap_ok env bw) candidate_sizes \<longrightarrow>
            (\<exists>r. fit_text_to_bubble env text bw bh font_size = Inr r))
       \<and> (\<forall>sz lines lh. fit_text_to_bubble env text bw bh font_size = Inr (sz, lines, lh) \<longrightarrow>
            min_font_size \<le> sz \<and> sz \<le> font_size
          \<and> lh = getbbox_bottom env sz ''Tg'' + 4
          \<and> (\<forall>s'. sz < s' \<and> s' \<le> font_size \<longrightarrow>
                \<not> greedy_accepted env text bw bh s' \<and> \<not> hyphenated_accepted env text bw bh s')
          \<and> (greedy_accepted env text bw bh sz \<and> lines = greedy_lines env text bw sz
             \<or> \<not> greedy_accepted env text bw bh sz \<and> hyphenated_accepted env text bw bh sz
                \<and> lines = hyphenated_lines env sz bw text
             \<or> sz = min_font_size
                \<and> \<not> greedy_accepted env text bw bh sz \<and> \<not> hyphenated_accepted env text bw bh sz
                \<and> lines = hyphenated_lines env sz bw text))"
proof (intro conjI impI allI)
  assume "list_all (wrap_ok env bw) candidate_sizes"
  from fit_scan_no_error [OF this, of "text" bh]
  obtain r where "fit_scan env text bw bh candidate_sizes = Inr r" by blast
  then show "\<exists>r. fit_text_to_bubble env text bw bh font_size = Inr r"
    by (cases r) (auto simp: fit_text_to_bubble_def)
next
  fix sz lines lh
  assume res: "fit_text_to_bubble env text bw bh font_size = Inr (sz, lines, lh)"
  let ?goal = "min_font_size \<le> sz \<and> sz \<le> font_size
          \<and> lh = getbbox_bottom env sz ''Tg'' + 4
          \<and> (\<forall>s'. sz < s' \<and> s' \<le> font_size \<longrightarrow>
                \<not> greedy_accepted env text bw bh s' \<and> \<not> hyphenated_accepted env text bw bh s')
          \<and> (greedy_accepted env text bw bh sz \<and> lines = greedy_lines env text bw sz
             \<or> \<not> greedy_accepted env text bw bh sz \<and> hyphenated_accepted env text bw bh sz
                \<and> lines = hyphenated_lines env sz bw text
             \<or> sz = min_font_size
                \<and> \<not> greedy_accepted env text bw bh sz \<and> \<not> hyphenated_accepted env text bw bh sz
                \<and> lines = hyphenated_lines env sz bw text)"
  have "?goal"
  proof (cases "fit_scan env text bw bh candidate_sizes")
    case (Inl e)
    then show ?thesis using res by (simp add: fit_text_to_bubble_def)
  next
    case (Inr opt)
    show ?thesis
    proof (cases opt)
      case None
      then have eq: "sz = min_font_size" "lines = hyphenated_lines env min_font_size bw text"
        "lh = line_height_of env min_font_size"
        using res Inr by (simp_all add: fit_text_to_bubble_def)
      have all: "\<forall>s\<in>set candidate_sizes. try_size env text bw bh s = Inr None"
        using fit_scan_None [of env "text" bw bh candidate_sizes] Inr None
        by (simp add: list_all_iff)
      have "set candidate_sizes = {min_font_size..max_font_size}"
        by (simp add: candidate_sizes_def)
      with all have rej: "\<forall>s. min_font_size \<le> s \<and> s \<le> max_font_size \<longrightarrow>
          \<not> greedy_accepted env text bw bh s \<and> \<not> hyphenated_accepted env text bw bh s"
        by (auto simp: try_size_None_iff)
      have "min_font_size \<le> max_font_size" by (simp add: min_font_size_def max_font_size_def)
      then show ?thesis using eq assms rej by (simp add: line_height_of_def)
    next
      case (Some r)
      then have r: "r = (sz, lines, lh)" using res Inr by (simp add: fit_text_to_bubble_def)
      from fit_scan_Some [of env "text" bw bh candidate_sizes r] Inr Some
      obtain pre s post where sp: "candidate_sizes = pre @ s # post"
        and ts: "try_size env text bw bh s = Inr (Some r)"
        and rej: "list_all (\<lambda>s'. try_size env text bw bh s' = Inr None) pre" by blast
      from try_size_Some [OF ts [unfolded r]] have s: "sz = s" by simp
      from candidate_split [OF sp] have rng: "min_font_size \<le> s" "s \<le> max_font_size"
        and pre: "set pre = {s'. s < s' \<and> s' \<le> max_font_size}" by simp_all
      have above: "\<forall>s'. sz < s' \<and> s' \<le> font_size \<longrightarrow>
          \<not> greedy_accepted env text bw bh s' \<and> \<not> hyphenated_accepted env text bw bh s'"
        using rej pre s assms by (auto simp: list_all_iff try_size_None_iff)
      from ts [unfolded r try_size_Some_iff] s
      have at: "lh = getbbox_bottom env sz ''Tg'' + 4
          \<and> (greedy_accepted env text bw bh sz \<and> lines = greedy_lines env text bw sz
             \<or> \<not> greedy_accepted env text bw bh sz \<and> hyphenated_accepted env text bw bh sz
                \<and> lines = hyphenated_lines env sz bw text)" by auto
      show ?thesis using rng s above at assms by blast
    qed
  qed
  then show "min_font_size \<le> sz" "sz \<le> font_size" "lh = getbbox_bottom env sz ''Tg'' + 4"
    "\<And>s'. sz < s' \<and> s' \<le> font_size \<Longrightarrow> \<not> greedy_accepted env text bw bh s'"
    "\<And>s'. sz < s' \<and> s' \<le> font_size \<Longrightarrow> \<not> hyphenated_accepted env text bw bh s'"
    "greedy_accepted env text bw bh sz \<and> lines = greedy_lines env text bw sz
             \<or> \<not> greedy_accepted env text bw bh sz \<and> hyphenated_accepted env text bw bh sz
                \<and> lines = hyphenated_lines env sz bw text
             \<or> sz = min_font_size
                \<and> \<not> greedy_accepted env text bw bh sz \<and> \<not> hyphenated_accepted env text bw bh sz
                \<and> lines = hyphenated_lines env sz bw text"
    by blast+
qed

text \<open>
  The example of the specification (\<open>Hola mundo\<close>, width 200, height 80): at size 38
  neither test succeeds; at size 37 the greedy wrap has two lines, which are too high, and
  the hyphenated wrap has one line, which is accepted.
\<close>

theorem fit_text_largest_accepted_witness:
  "(64::int) = max_font_size
   \<and> list_all (wrap_ok demo_env 200) candidate_sizes
   \<and> fit_text_to_bubble demo_env ''Hola mundo'' 200 80 64 = Inr (37, [''Hola mundo''], 41)
   \<and> min_font_size \<le> 37 \<and> (37::int) \<le> 64
   \<and> (37::int) < 38 \<and> (38::int) \<le> 64
   \<and> \<not> greedy_accepted demo_env ''Hola mundo'' 200 80 38
   \<and> \<not> hyphenated_accepted demo_env ''Hola mundo'' 200 80 38
   \<and> greedy_lines demo_env ''Hola mundo'' 200 37 = [''Hola'', ''mundo'']
   \<and> \<not> greedy_accepted demo_env ''Hola mundo'' 200 80 37
   \<and> hyphenated_accepted demo_env ''Hola mundo'' 200 80 37
   \<and> hyphenated_lines demo_env 37 200 ''Hola mundo'' = [''Hola mundo'']"
proof -
  have a: "(64::int) = max_font_size" by (simp add: max_font_size_def)
  have b: "list_all (wrap_ok demo_env 200) candidate_sizes" by code_simp
  have c: "fit_text_to_bubble demo_env ''Hola mundo'' 200 80 64 = Inr (37, [''Hola mundo''], 41)"
    by code_simp
  have g: "greedy_lines demo_env ''Hola mundo'' 200 37 = [''Hola'', ''mundo'']" by code_simp
  note t = fit_text_largest_accepted [OF a, of demo_env 200 "''Hola mundo''" 80]
  from t c have d: "min_font_size \<le> 37"
    and e: "\<forall>s'. 37 < s' \<and> s' \<le> 64 \<longrightarrow>
          \<not> greedy_accepted demo_env ''Hola mundo'' 200 80 s'
          \<and> \<not> hyphenated_accepted demo_env ''Hola mundo'' 200 80 s'"
    and f: "greedy_accepted demo_env ''Hola mundo'' 200 80 37
              \<and> [''Hola mundo''] = greedy_lines demo_env ''Hola mundo'' 200 37
          \<or> \<not> greedy_accepted demo_env ''Hola mundo'' 200 80 37
              \<and> hyphenated_accepted demo_env ''Hola mundo'' 200 80 37
              \<and> [''Hola mundo''] = hyphenated_lines demo_env 37 200 ''Hola mundo''
          \<or> 37 = min_font_size
              \<and> \<not> greedy_accepted demo_env ''Hola mundo'' 200 80 37
              \<and> \<not> hyphenated_accepted demo_env ''Hola mundo'' 200 80 37
              \<and> [''Hola mundo''] = hyphenated_lines demo_env 37 200 ''Hola mundo''"
    by blast+
  from e have h: "\<not> greedy_accepted demo_env ''Hola mundo'' 200 80 38
      \<and> \<not> hyphenated_accepted demo_env ''Hola mundo'' 200 80 38" by simp
  from f g have i: "\<not> greedy_accepted demo_env ''Hola mundo'' 200 80 37
      \<and> hyphenated_accepted demo_env ''Hola mundo'' 200 80 37
      \<and> hyphenated_lines demo_env 37 200 ''Hola mundo'' = [''Hola mundo'']"
    by (auto simp: min_font_size_def)
  from a b c d g h i show ?thesis by simp
qed

text \<open>
  Claim C10.  Two calls of \<^verbatim>\<open>fit_text_to_bubble\<close> that differ only in the
  \<^verbatim>\<open>font_size\<close> argument (same text, font, bubble width and bubble height) return the
  same result: the scan always runs over the fixed sizes 64 down to 12 and the argument is
  never read, so the size cap passed by the caller has no effect.
\<close>

theorem fit_text_to_bubble_ignores_font_size:
  "fit_text_to_bubble env text bubble_width bubble_height font_size1 =
   fit_text_to_bubble env text bubble_width bubble_height font_size2"
  by (simp add: fit_text_to_bubble_def)

section \<open>Properties of the bubble geometry\<close>

subsection \<open>Bounding boxes, persisted records and prioritising\<close>

lemma py_min_Min:
  assumes "vs \<noteq> []"
  shows "py_min vs = Inr (Min (set vs))"
proof (cases vs)
  case Nil
  with assms show ?thesis by simp
next
  case (Cons v rest)
  have "foldl min v rest = fold min rest v"
    by (simp add: foldl_conv_fold min.commute)
  then show ?thesis using Cons Min.set_eq_fold [of v rest] by simp
qed

lemma py_max_Max:
  assumes "vs \<noteq> []"
  shows "py_max vs = Inr (Max (set vs))"
proof (cases vs)
  case Nil
  with assms show ?thesis by simp
next
  case (Cons v rest)
  have "foldl max v rest = fold max rest v"
    by (simp add: foldl_conv_fold max.commute)
  then show ?thesis using Cons Max.set_eq_fold [of v rest] by simp
qed

lemma bubble_box_nonempty: "bubble \<noteq> [] \<Longrightarrow> bubble_box bubble = Inr (box_of bubble)"
  by (simp add: bubble_box_def box_of_def py_min_Min py_max_Max)

lemma bubble_box_empty: "bubble_box [] = Inl ValueError"
  by (simp add: bubble_box_def)

lemma bubble_area_nonempty: "bubble \<noteq> [] \<Longrightarrow> bubble_area bubble = Inr (box_area bubble)"
  by (simp add: bubble_area_def box_area_def bubble_box_nonempty split: prod.splits)

lemma final_bubbles_nonempty:
  "[] \<notin> set groups \<Longrightarrow>
   \<exists>recs. final_bubbles i groups = Inr recs \<and> length recs = length groups
     \<and> (\<forall>k<length groups.
           bubble_number (recs ! k) = int (i + k) + 1
         \<and> (bub_x (recs ! k), bub_y (recs ! k),
            bub_x (recs ! k) + bub_width (recs ! k),
            bub_y (recs ! k) + bub_height (recs ! k)) = box_of (groups ! k)
         \<and> bub_text (recs ! k) = join_space (map reg_text (groups ! k))
         \<and> text_regions (recs ! k) = groups ! k)"
proof (induction groups arbitrary: i)
  case Nil
  then show ?case by simp
next
  case (Cons b rest)
  then have b: "b \<noteq> []" and rest: "[] \<notin> set rest" by auto
  from Cons.IH [OF rest, of "i + 1"] obtain recs where
    r: "final_bubbles (i + 1) rest = Inr recs" "length recs = length rest"
    and p: "\<forall>k<length rest.
           bubble_number (recs ! k) = int (i + 1 + k) + 1
         \<and> (bub_x (recs ! k), bub_y (recs ! k),
            bub_x (recs ! k) + bub_width (recs ! k),
            bub_y (recs ! k) + bub_height (recs ! k)) = box_of (rest ! k)
         \<and> bub_text (recs ! k) = join_space (map reg_text (rest ! k))
         \<and> text_regions (recs ! k) = rest ! k" by blast
  obtain x0 y0 x1 y1 where bx: "box_of b = (x0, y0, x1, y1)" by (cases "box_of b") auto
  let ?r = "\<lparr>bubble_number = int i + 1, bub_x = x0, bub_y = y0,
                    bub_width = x1 - x0, bub_height = y1 - y0,
                    bub_text = join_space (map reg_text b),
                    text_regions = b\<rparr>"
  have eq: "final_bubbles i (b # rest) = Inr (?r # recs)"
    using r bx b by (simp add: bubble_box_nonempty)
  have "\<forall>k<length (b # rest).
           bubble_number ((?r # recs) ! k) = int (i + k) + 1
         \<and> (bub_x ((?r # recs) ! k), bub_y ((?r # recs) ! k),
            bub_x ((?r # recs) ! k) + bub_width ((?r # recs) ! k),
            bub_y ((?r # recs) ! k) + bub_height ((?r # recs) ! k)) = box_of ((b # rest) ! k)
         \<and> bub_text ((?r # recs) ! k) = join_space (map reg_text ((b # rest) ! k))
         \<and> text_regions ((?r # recs) ! k) = (b # rest) ! k"
  proof (intro allI impI)
    fix k assume k: "k < length (b # rest)"
    show "bubble_number ((?r # recs) ! k) = int (i + k) + 1
         \<and> (bub_x ((?r # recs) ! k), bub_y ((?r # recs) ! k),
            bub_x ((?r # recs) ! k) + bub_width ((?r # recs) ! k),
            bub_y ((?r # recs) ! k) + bub_height ((?r # recs) ! k)) = box_of ((b # rest) ! k)
         \<and> bub_text ((?r # recs) ! k) = join_space (map reg_text ((b # rest) ! k))
         \<and> text_regions ((?r # recs) ! k) = (b # rest) ! k"
    proof (cases k)
      case 0
      then show ?thesis using bx by simp
    next
      case (Suc k')
      then have "k' < length rest" using k by simp
      with p Suc show ?thesis by simp
    qed
  qed
  with eq r(2) show ?case by simp
qed

text \<open>
  Claim C9.  When \<^verbatim>\<open>save_final_bounds\<close> writes (the file does not exist or
  \<^verbatim>\<open>overwrite\<close> is set), the bubble records it writes for a list of bubble groups are as
  many as the groups, and the \<open>i\<close>-th record (counting from 0) has bubble number
  \<open>i + 1\<close>, position and size of the union bounding box of the \<open>i\<close>-th group, the texts
  of its regions joined by one blank in the order of the group, and the group itself as
  \<^verbatim>\<open>text_regions\<close>.  Bubble groups are non-empty lists of regions.
\<close>

theorem save_final_bounds_records:
  assumes "[] \<notin> set bubble_groups" and "overwrite \<or> \<not> file_exists"
  shows "\<exists>recs. save_final_bounds bubble_groups file_exists overwrite = Inr (Some recs)
     \<and> length recs = length bubble_groups
     \<and> (\<forall>i<length bubble_groups.
           bubble_number (recs ! i) = int i + 1
         \<and> (bub_x (recs ! i), bub_y (recs ! i),
            bub_x (recs ! i) + bub_width (recs ! i),
            bub_y (recs ! i) + bub_height (recs ! i)) = box_of (bubble_groups ! i)
         \<and> bub_text (recs ! i) = join_space (map reg_text (bubble_groups ! i))
         \<and> text_regions (recs ! i) = bubble_groups ! i)"
proof -
  from final_bubbles_nonempty [OF assms(1), of 0] obtain recs where
    "final_bubbles 0 bubble_groups = Inr recs" "length recs = length bubble_groups"
    "\<forall>k<length bubble_groups.
           bubble_number (recs ! k) = int (0 + k) + 1
         \<and> (bub_x (recs ! k), bub_y (recs ! k),
            bub_x (recs ! k) + bub_width (recs ! k),
            bub_y (recs ! k) + bub_height (recs ! k)) = box_of (bubble_groups ! k)
         \<and> bub_text (recs ! k) = join_space (map reg_text (bubble_groups ! k))
         \<and> text_regions (recs ! k) = bubble_groups ! k" by blast
  then show ?thesis using assms(2) by (auto simp: save_final_bounds_def)
qed
text \<open>
  Two groups, the first with two regions.
\<close>

theorem save_final_bounds_records_witness:
  "[] \<notin> set [strip 0 10 @ strip 5 20, strip 100 5]
   \<and> (True \<or> \<not> False)
   \<and> save_final_bounds [strip 0 10 @ strip 5 20, strip 100 5] False True =
       Inr (Some [\<lparr>bubble_number = 1, bub_x = 0, bub_y = 0, bub_width = 25, bub_height = 1,
                    bub_text = ''t t'', text_regions = strip 0 10 @ strip 5 20\<rparr>,
                  \<lparr>bubble_number = 2, bub_x = 100, bub_y = 0, bub_width = 5, bub_height = 1,
                    bub_text = ''t'', text_regions = strip 100 5\<rparr>])
   \<and> box_of (strip 0 10 @ strip 5 20) = (0, 0, 25, 1)"
proof -
  let ?G = "[strip 0 10 @ strip 5 20, strip 100 5]"
  let ?r1 = "\<lparr>bubble_number = 1, bub_x = 0, bub_y = 0, bub_width = 25, bub_height = 1,
                    bub_text = ''t t'', text_regions = strip 0 10 @ strip 5 20\<rparr>"
  let ?r2 = "\<lparr>bubble_number = 2, bub_x = 100, bub_y = 0, bub_width = 5, bub_height = 1,
                    bub_text = ''t'', text_regions = strip 100 5\<rparr>"
  have a: "[] \<notin> set ?G" by (simp add: strip_def)
  have b: "True \<or> \<not> False" by simp
  have c: "save_final_bounds ?G False True = Inr (Some [?r1, ?r2])" by code_simp
  from save_final_bounds_records [OF a b] c
  have "(bub_x ([?r1, ?r2] ! 0), bub_y ([?r1, ?r2] ! 0),
            bub_x ([?r1, ?r2] ! 0) + bub_width ([?r1, ?r2] ! 0),
            bub_y ([?r1, ?r2] ! 0) + bub_height ([?r1, ?r2] ! 0)) = box_of (?G ! 0)"
    by auto
  then have d: "box_of (strip 0 10 @ strip 5 20) = (0, 0, 25, 1)" by simp
  from a b c d show ?thesis by blast
qed

text \<open>
  Claim C5.  The claim says that the prioritiser succeeds on every list of groups longer
  than \<^verbatim>\<open>max_bubbles\<close>, also when two groups have the same bounding-box area.  The code
  raises there: \<^verbatim>\<open>bubble_areas.sort(reverse=True)\<close> compares the pairs (area, bubble), and
  for equal areas it compares the bubbles, which are lists of dictionaries; two different
  dictionaries cannot be ordered, and Python raises \<^verbatim>\<open>TypeError\<close>.  The theorem evaluates
  the call for three one-region groups of areas 10, 10 and 5 with \<^verbatim>\<open>max_bubbles = 2\<close>.
\<close>

theorem filter_and_prioritize_equal_area_raises:
  "filter_and_prioritize_bubbles [strip 0 10, strip 100 10, strip 200 5] 2 = Inl TypeError"
  by code_simp

lemma areas_of_nonempty:
  "[] \<notin> set groups \<Longrightarrow> areas_of groups = Inr (map (\<lambda>b. (box_area b, b)) groups)"
  by (induction groups) (auto simp: bubble_area_nonempty)

lemma insert_desc_sorted:
  assumes "sorted_wrt (\<lambda>x y. fst y < fst x) xs" and "fst a \<notin> fst ` set xs"
  shows "\<exists>r. insert_desc a xs = Inr r \<and> mset r = add_mset a (mset xs)
            \<and> sorted_wrt (\<lambda>x y. fst y < fst x) r"
  using assms
proof (induction xs)
  case Nil
  then show ?case by simp
next
  case (Cons b xs)
  then have ne: "fst a \<noteq> fst b" by auto
  show ?case
  proof (cases "fst a < fst b")
    case True
    from Cons obtain r where r: "insert_desc a xs = Inr r" "mset r = add_mset a (mset xs)"
      "sorted_wrt (\<lambda>x y. fst y < fst x) r" by auto
    have "set r = insert a (set xs)" using r(2) by (metis set_mset_add_mset_insert set_mset_mset)
    then have "sorted_wrt (\<lambda>x y. fst y < fst x) (b # r)"
      using r(3) Cons.prems(1) True by auto
    then show ?thesis using r True ne by (simp add: tuple_lt_def)
  next
    case False
    then have "fst b < fst a" using ne by simp
    then have "sorted_wrt (\<lambda>x y. fst y < fst x) (a # b # xs)"
      using Cons.prems(1) by auto
    then show ?thesis using False ne by (simp add: tuple_lt_def)
  qed
qed

lemma py_sort_reverse_sorted:
  "distinct (map fst xs) \<Longrightarrow>
   \<exists>r. py_sort_reverse xs = Inr r \<and> mset r = mset xs \<and> sorted_wrt (\<lambda>x y. fst y < fst x) r"
proof (induction xs)
  case Nil
  then show ?case by simp
next
  case (Cons a xs)
  then obtain r where r: "py_sort_reverse xs = Inr r" "mset r = mset xs"
    "sorted_wrt (\<lambda>x y. fst y < fst x) r" by auto
  have "set r = set xs" using r(2) by (metis set_mset_mset)
  then have "fst a \<notin> fst ` set r" using Cons.prems by auto
  from insert_desc_sorted [OF r(3) this] r show ?case by auto
qed

text \<open>
  Where the bounding-box areas of the groups are pairwise different, no comparison of the
  sort reaches the bubbles: for a count \<open>max_count \<ge> 0\<close> the prioritiser returns a list
  of at most \<open>max_count\<close> groups unchanged, and otherwise the first \<open>max_count\<close>
  groups of the arrangement of all groups by strictly descending area.
\<close>

lemma filter_and_prioritize_distinct_areas:
  assumes "0 \<le> max_count" and "[] \<notin> set groups" and "distinct (map box_area groups)"
  shows "if int (length groups) \<le> max_count
         then filter_and_prioritize_bubbles groups max_count = Inr groups
         else \<exists>srt. filter_and_prioritize_bubbles groups max_count = Inr (take (nat max_count) srt)
                \<and> mset srt = mset groups
                \<and> sorted_wrt (\<lambda>a b. box_area b < box_area a) srt"
proof (cases "int (length groups) \<le> max_count")
  case True
  then show ?thesis by (simp add: filter_and_prioritize_bubbles_def)
next
  case False
  let ?xs = "map (\<lambda>b. (box_area b, b)) groups"
  have "distinct (map fst ?xs)" using assms(3) by (simp add: comp_def)
  from py_sort_reverse_sorted [OF this] obtain r where
    r: "py_sort_reverse ?xs = Inr r" "mset r = mset ?xs" "sorted_wrt (\<lambda>x y. fst y < fst x) r"
    by blast
  have setr: "set r = set ?xs" using r(2) by (metis set_mset_mset)
  have ne: "groups \<noteq> []" using False assms(1) by auto
  have res: "filter_and_prioritize_bubbles groups max_count = Inr (take (nat max_count) (map snd r))"
    using False ne r(1) assms(1) areas_of_nonempty [OF assms(2)]
    by (simp add: filter_and_prioritize_bubbles_def py_slice_to_def take_map)
  have "image_mset snd (mset r) = mset groups"
    unfolding r(2) by (simp add: image_mset.compositionality comp_def)
  then have m: "mset (map snd r) = mset groups" by simp
  have "sorted_wrt (\<lambda>x y. box_area (snd y) < box_area (snd x)) r"
    using r(3) setr by (auto intro: sorted_wrt_mono_rel [rotated])
  then have s: "sorted_wrt (\<lambda>a b. box_area b < box_area a) (map snd r)"
    by (simp add: sorted_wrt_map)
  from res m s False show ?thesis by auto
qed

text \<open>
  The example of the specification: groups of areas 10, 50, 30, 5 and 80 with
  \<^verbatim>\<open>max_count = 2\<close> give the groups of areas 80 and 50, in that order.
\<close>

lemma filter_and_prioritize_example:
  "(0::int) \<le> 2
   \<and> [] \<notin> set (map (strip 0) [10, 50, 30, 5, 80])
   \<and> distinct (map box_area (map (strip 0) [10, 50, 30, 5, 80]))
   \<and> map box_area (map (strip 0) [10, 50, 30, 5, 80]) = [10, 50, 30, 5, 80]
   \<and> \<not> int (length (map (strip 0) [10, 50, 30, 5, 80])) \<le> 2
   \<and> filter_and_prioritize_bubbles (map (strip 0) [10, 50, 30, 5, 80]) 2 =
       Inr [strip 0 80, strip 0 50]
   \<and> (\<exists>srt. [strip 0 80, strip 0 50] = take 2 srt
          \<and> mset srt = mset (map (strip 0) [10, 50, 30, 5, 80])
          \<and> sorted_wrt (\<lambda>a b. box_area b < box_area a) srt)"
proof -
  let ?G = "map (strip 0) [10, 50, 30, 5, 80]"
  have a: "(0::int) \<le> 2" by simp
  have b: "[] \<notin> set ?G" by (simp add: strip_def)
  have ar: "map box_area ?G = [10, 50, 30, 5, 80]" by code_simp
  then have c: "distinct (map box_area ?G)" by simp
  have d: "\<not> int (length ?G) \<le> 2" by simp
  have e: "filter_and_prioritize_bubbles ?G 2 = Inr [strip 0 80, strip 0 50]" by code_simp
  from filter_and_prioritize_distinct_areas [OF a b c] d e
  have "\<exists>srt. [strip 0 80, strip 0 50] = take 2 srt
          \<and> mset srt = mset ?G
          \<and> sorted_wrt (\<lambda>a b. box_area b < box_area a) srt" by auto
  with a b c ar d e show ?thesis by blast
qed

text \<open>
  Claim C6.  The claim says that for a list longer than \<open>max_count\<close> the prioritiser
  returns exactly the \<open>max_count\<close> groups of largest bounding-box area, in descending
  order of area.  The code does not when areas are equal: for four one-region groups of
  areas 10, 50, 50 and 5 and \<^verbatim>\<open>max_count = 2\<close>, the two groups of area 50 are the
  largest, but the sort compares them as lists of dictionaries and raises
  \<^verbatim>\<open>TypeError\<close>.  This is the defect of claim C5.
\<close>

theorem filter_and_prioritize_tie_among_largest:
  "filter_and_prioritize_bubbles [strip 0 10, strip 0 50, strip 100 50, strip 0 5] 2 = Inl TypeError"
  by code_simp

subsection \<open>Clustering two fragments, and the merger in place\<close>

lemma within_eps_refl: "within_eps eps p p"
  by (simp add: within_eps_def)

lemma within_eps_sym: "within_eps eps p q = within_eps eps q p"
proof -
  have "(fst p - fst q) * (fst p - fst q) = (fst q - fst p) * (fst q - fst p)"
    and "(snd p - snd q) * (snd p - snd q) = (snd q - snd p) * (snd q - snd p)"
    by (simp_all add: algebra_simps)
  then show ?thesis by (simp add: within_eps_def)
qed

lemma upt_two: "[0..<2] = [0, Suc 0]"
  by (simp add: upt_rec numeral_2_eq_2)

lemma neighborhood_two:
  "neighborhood eps [p, q] 0 = (if within_eps eps p q then [0, 1] else [0])"
  "neighborhood eps [p, q] (Suc 0) = (if within_eps eps p q then [0, 1] else [1])"
  using within_eps_sym [of eps q p]
  by (simp_all add: neighborhood_def upt_two within_eps_refl)

lemma dbscan_outer_two_far:
  assumes "nb 0 = [0]" and "nb (Suc 0) = [Suc 0]" and "core 0" and "core (Suc 0)"
  shows "dbscan_outer nb core [0, Suc 0] 0 [None, None] = [Some 0, Some (Suc 0)]"
proof -
  have d0: "dbscan_dfs nb core 0 0 [] [None, None] = [Some 0, None]"
    by (subst dbscan_dfs.simps) (simp add: assms unlabelled_def Let_def)
  have d1: "dbscan_dfs nb core (Suc 0) (Suc 0) [] [Some 0, None] = [Some 0, Some (Suc 0)]"
    by (subst dbscan_dfs.simps) (simp add: assms unlabelled_def Let_def)
  show ?thesis by (simp add: assms unlabelled_def d0 d1)
qed

lemma dbscan_outer_two_near:
  assumes "nb 0 = [0, Suc 0]" and "nb (Suc 0) = [0, Suc 0]" and "core 0" and "core (Suc 0)"
  shows "dbscan_outer nb core [0, Suc 0] 0 [None, None] = [Some 0, Some 0]"
proof -
  have d1: "dbscan_dfs nb core 0 (Suc 0) [] [Some 0, None] = [Some 0, Some 0]"
    by (subst dbscan_dfs.simps) (simp add: assms unlabelled_def Let_def)
  have d0: "dbscan_dfs nb core 0 0 [] [None, None] = [Some 0, Some 0]"
    by (subst dbscan_dfs.simps) (simp add: assms unlabelled_def Let_def d1)
  show ?thesis by (simp add: assms unlabelled_def d0)
qed

lemma dbscan_two_far:
  assumes "0 < eps" and "\<not> within_eps eps p q"
  shows "dbscan_labels eps 1 [p, q] = Inr [0, 1]"
proof -
  have "dbscan_outer (neighborhood eps [p, q]) (\<lambda>i. 1 \<le> length (neighborhood eps [p, q] i))
          [0, Suc 0] 0 [None, None] = [Some 0, Some (Suc 0)]"
    using assms(2) by (intro dbscan_outer_two_far) (simp_all add: neighborhood_two)
  then show ?thesis using assms(1)
    by (simp add: dbscan_labels_def Let_def upt_two numeral_2_eq_2)
qed

lemma dbscan_two_near:
  assumes "0 < eps" and "within_eps eps p q"
  shows "dbscan_labels eps 1 [p, q] = Inr [0, 0]"
proof -
  have "dbscan_outer (neighborhood eps [p, q]) (\<lambda>i. 1 \<le> length (neighborhood eps [p, q] i))
          [0, Suc 0] 0 [None, None] = [Some 0, Some 0]"
    using assms(2) by (intro dbscan_outer_two_near) (simp_all add: neighborhood_two)
  then show ?thesis using assms(1)
    by (simp add: dbscan_labels_def Let_def upt_two numeral_2_eq_2)
qed

lemma center_point_alt:
  "center_point vw hp r = (of_int (center_x r) * hp, of_int (center_y r) * vw)"
  by (simp only: center_point_def center_x_def center_y_def Let_def)

text \<open>
  Claim C8.  With \<open>eps = 225\<close>, vertical weight 1.5 and horizontal penalty 0.75, the
  clusterer puts two fragments whose centres are 500 pixels apart horizontally, at equal
  \<open>y\<close>, into different groups (the scaled distance is 375), and two fragments whose
  centres are 30 pixels apart vertically, at equal \<open>x\<close>, into the same group (the scaled
  distance is 45).
\<close>

theorem clustering_separation:
  "(\<bar>center_x b - center_x a\<bar> = 500 \<and> center_y b = center_y a \<longrightarrow>
      group_text_regions_by_distance [a, b] 225 (3 / 2) (3 / 4) = Inr [[a], [b]])
   \<and> (\<bar>center_y b - center_y a\<bar> = 30 \<and> center_x b = center_x a \<longrightarrow>
      group_text_regions_by_distance [a, b] 225 (3 / 2) (3 / 4) = Inr [[a, b]])"
proof (intro conjI impI)
  let ?p = "center_point (3 / 2) (3 / 4) a" and ?q = "center_point (3 / 2) (3 / 4) b"
  define X where "X = fst ?p - fst ?q"
  define Y where "Y = snd ?p - snd ?q"
  have X: "X = of_int (center_x a - center_x b) * (3 / 4)"
    and Y: "Y = of_int (center_y a - center_y b) * (3 / 2)"
    unfolding X_def Y_def
    by (simp_all only: center_point_alt fst_conv snd_conv of_int_diff left_diff_distrib)
  have w: "within_eps 225 ?p ?q \<longleftrightarrow> X * X + Y * Y \<le> 225 * 225"
    by (simp only: within_eps_def X_def Y_def)
  {
    assume h: "\<bar>center_x b - center_x a\<bar> = 500 \<and> center_y b = center_y a"
    then have "center_x a - center_x b = 500 \<or> center_x a - center_x b = - 500" by linarith
    then have "X = 375 \<or> X = - 375" unfolding X by auto
    moreover have "Y = 0" unfolding Y using h by simp
    ultimately have "\<not> within_eps 225 ?p ?q" unfolding w by auto
    from dbscan_two_far [OF _ this]
    show "group_text_regions_by_distance [a, b] 225 (3 / 2) (3 / 4) = Inr [[a], [b]]"
      by (simp add: group_text_regions_by_distance_def)
  }
  {
    assume h: "\<bar>center_y b - center_y a\<bar> = 30 \<and> center_x b = center_x a"
    then have "center_y a - center_y b = 30 \<or> center_y a - center_y b = - 30" by linarith
    then have "Y = 45 \<or> Y = - 45" unfolding Y by auto
    moreover have "X = 0" unfolding X using h by simp
    ultimately have "within_eps 225 ?p ?q" unfolding w by auto
    from dbscan_two_near [OF _ this]
    show "group_text_regions_by_distance [a, b] 225 (3 / 2) (3 / 4) = Inr [[a, b]]"
      by (simp add: group_text_regions_by_distance_def)
  }
qed

text \<open>
  Two pairs of fragments with such centres.
\<close>

theorem clustering_separation_witness:
  "\<bar>center_x (frag 550 40 ''b'') - center_x (frag 50 40 ''a'')\<bar> = 500
   \<and> center_y (frag 550 40 ''b'') = center_y (frag 50 40 ''a'')
   \<and> group_text_regions_by_distance [frag 50 40 ''a'', frag 550 40 ''b''] 225 (3 / 2) (3 / 4) =
        Inr [[frag 50 40 ''a''], [frag 550 40 ''b'']]
   \<and> \<bar>center_y (frag 50 70 ''d'') - center_y (frag 50 40 ''c'')\<bar> = 30
   \<and> center_x (frag 50 70 ''d'') = center_x (frag 50 40 ''c'')
   \<and> group_text_regions_by_distance [frag 50 40 ''c'', frag 50 70 ''d''] 225 (3 / 2) (3 / 4) =
        Inr [[frag 50 40 ''c'', frag 50 70 ''d'']]"
proof -
  have a: "\<bar>center_x (frag 550 40 ''b'') - center_x (frag 50 40 ''a'')\<bar> = 500
     \<and> center_y (frag 550 40 ''b'') = center_y (frag 50 40 ''a'')"
    by (simp add: center_x_def center_y_def frag_def)
  have b: "\<bar>center_y (frag 50 70 ''d'') - center_y (frag 50 40 ''c'')\<bar> = 30
     \<and> center_x (frag 50 70 ''d'') = center_x (frag 50 40 ''c'')"
    by (simp add: center_x_def center_y_def frag_def)
  from clustering_separation [of "frag 550 40 ''b''" "frag 50 40 ''a''"] a
  have c: "group_text_regions_by_distance [frag 50 40 ''a'', frag 550 40 ''b''] 225 (3 / 2) (3 / 4) =
        Inr [[frag 50 40 ''a''], [frag 550 40 ''b'']]" by blast
  from clustering_separation [of "frag 50 70 ''d''" "frag 50 40 ''c''"] b
  have d: "group_text_regions_by_distance [frag 50 40 ''c'', frag 50 70 ''d''] 225 (3 / 2) (3 / 4) =
        Inr [[frag 50 40 ''c'', frag 50 70 ''d'']]" by blast
  from a b c d show ?thesis by blast
qed

lemma step_closedD:
  "step_closed p I \<Longrightarrow> I (h, bs) \<Longrightarrow> i < j \<Longrightarrow> j < length (group_lists h p) \<Longrightarrow>
   I (merge_into p i j h, merge_boxes i j bs)"
  unfolding step_closed_def by (erule allE [of _ h], erule allE [of _ bs], erule allE [of _ i], erule allE [of _ j]) simp

lemma scan_j_closed:
  "scan_j p i j s = s' \<Longrightarrow> step_closed p I \<Longrightarrow> I (fst s, fst (snd s)) \<Longrightarrow> i < j \<Longrightarrow>
   I (fst s', fst (snd s'))"
proof (induction p i j s arbitrary: s' rule: scan_j.induct)
  case (1 p i j h bs m)
  show ?case
  proof (cases "j < length (group_lists h p)")
    case False
    then have "s' = (h, bs, m)" using "1.prems"(1) by (simp add: scan_j.simps [of p i j h])
    then show ?thesis using "1.prems"(3) by simp
  next
    case inr: True
    show ?thesis
    proof (cases "boxes_overlap (bs ! i) (bs ! j)")
      case True
      have eq: "scan_j p i j (merge_into p i j h, merge_boxes i j bs, True) = s'"
        using "1.prems"(1) inr True by (simp add: scan_j.simps [of p i j h])
      have "I (merge_into p i j h, merge_boxes i j bs)"
        using step_closedD [OF "1.prems"(2) _ "1.prems"(4) inr, of bs] "1.prems"(3) by simp
      then show ?thesis using "1.IH"(1) [OF inr True eq "1.prems"(2) _ "1.prems"(4)] by simp
    next
      case False
      have eq: "scan_j p i (j + 1) (h, bs, m) = s'"
        using "1.prems"(1) inr False by (simp add: scan_j.simps [of p i j h])
      show ?thesis using "1.IH"(2) [OF inr False eq "1.prems"(2,3)] "1.prems"(4) by simp
    qed
  qed
qed

lemma scan_i_closed:
  "scan_i p i s = s' \<Longrightarrow> step_closed p I \<Longrightarrow> I (fst s, fst (snd s)) \<Longrightarrow>
   I (fst s', fst (snd s'))"
proof (induction p i s arbitrary: s' rule: scan_i.induct)
  case (1 p i h bs m)
  show ?case
  proof (cases "i < length (group_lists h p)")
    case False
    then have "s' = (h, bs, m)" using "1.prems"(1) by (simp add: scan_i.simps [of p i h])
    then show ?thesis using "1.prems"(3) by simp
  next
    case inr: True
    define t where "t = scan_j p i (i + 1) (h, bs, m)"
    have It: "I (fst t, fst (snd t))"
      using scan_j_closed [OF t_def [symmetric] "1.prems"(2)] "1.prems"(3) by simp
    show ?thesis
    proof (cases "snd (snd t)")
      case True
      then have "s' = t" using "1.prems"(1) inr by (simp add: scan_i.simps [of p i h] t_def Let_def)
      then show ?thesis using It by simp
    next
      case False
      then have eq: "scan_i p (i + 1) t = s'"
        using "1.prems"(1) inr by (simp add: scan_i.simps [of p i h] t_def Let_def)
      from "1.IH" [OF inr t_def False eq "1.prems"(2) It] show ?thesis .
    qed
  qed
qed

lemma merge_passes_closed:
  "merge_passes p s = s' \<Longrightarrow> step_closed p I \<Longrightarrow> I s \<Longrightarrow> I s'"
proof (induction p s arbitrary: s' rule: merge_passes.induct)
  case (1 p h bs)
  define t where "t = scan_i p 0 (h, bs, False)"
  have It: "I (fst t, fst (snd t))"
    using scan_i_closed [OF t_def [symmetric] "1.prems"(2)] "1.prems"(3) by simp
  show ?case
  proof (cases "snd (snd t)")
    case True
    then have eq: "merge_passes p (fst t, fst (snd t)) = s'"
      using "1.prems"(1) by (simp add: merge_passes.simps [of p h] t_def Let_def)
    from "1.IH" [OF t_def True eq "1.prems"(2) It] show ?thesis .
  next
    case False
    then have "s' = (fst t, fst (snd t))"
      using "1.prems"(1) by (simp add: merge_passes.simps [of p h] t_def Let_def)
    then show ?thesis using It by simp
  qed
qed

lemma scan_j_clean:
  "scan_j p i j s = s' \<Longrightarrow> \<not> snd (snd s') \<Longrightarrow>
   s' = s \<and> (\<forall>k. j \<le> k \<and> k < length (group_lists (fst s) p) \<longrightarrow>
              \<not> boxes_overlap (fst (snd s) ! i) (fst (snd s) ! k))"
proof (induction p i j s arbitrary: s' rule: scan_j.induct)
  case (1 p i j h bs m)
  show ?case
  proof (cases "j < length (group_lists h p)")
    case False
    then have "s' = (h, bs, m)" using "1.prems"(1) by (simp add: scan_j.simps [of p i j h])
    then show ?thesis using False by auto
  next
    case inr: True
    show ?thesis
    proof (cases "boxes_overlap (bs ! i) (bs ! j)")
      case True
      have eq: "scan_j p i j (merge_into p i j h, merge_boxes i j bs, True) = s'"
        using "1.prems"(1) inr True by (simp add: scan_j.simps [of p i j h])
      from scan_j_length [OF eq] have "snd (snd s')" by simp
      then show ?thesis using "1.prems"(2) by simp
    next
      case False
      have eq: "scan_j p i (j + 1) (h, bs, m) = s'"
        using "1.prems"(1) inr False by (simp add: scan_j.simps [of p i j h])
      from "1.IH"(2) [OF inr False eq "1.prems"(2)]
      have s: "s' = (h, bs, m)"
        and r: "\<forall>k. j + 1 \<le> k \<and> k < length (group_lists h p) \<longrightarrow> \<not> boxes_overlap (bs ! i) (bs ! k)"
        by simp_all
      have "\<not> boxes_overlap (bs ! i) (bs ! k)" if "j \<le> k" "k < length (group_lists h p)" for k
      proof (cases "k = j")
        case True
        then show ?thesis using False by simp
      next
        case False
        then show ?thesis using r that by simp
      qed
      then show ?thesis using s by simp
    qed
  qed
qed

lemma scan_i_clean:
  "scan_i p i s = s' \<Longrightarrow> \<not> snd (snd s') \<Longrightarrow>
   s' = s \<and> (\<forall>a k. i \<le> a \<and> a < k \<and> k < length (group_lists (fst s) p) \<longrightarrow>
              \<not> boxes_overlap (fst (snd s) ! a) (fst (snd s) ! k))"
proof (induction p i s arbitrary: s' rule: scan_i.induct)
  case (1 p i h bs m)
  show ?case
  proof (cases "i < length (group_lists h p)")
    case False
    then have "s' = (h, bs, m)" using "1.prems"(1) by (simp add: scan_i.simps [of p i h])
    then show ?thesis using False by auto
  next
    case inr: True
    define t where "t = scan_j p i (i + 1) (h, bs, m)"
    show ?thesis
    proof (cases "snd (snd t)")
      case True
      then have "s' = t" using "1.prems"(1) inr by (simp add: scan_i.simps [of p i h] t_def Let_def)
      then show ?thesis using True "1.prems"(2) by simp
    next
      case False
      then have eq: "scan_i p (i + 1) t = s'"
        using "1.prems"(1) inr by (simp add: scan_i.simps [of p i h] t_def Let_def)
      from scan_j_clean [OF t_def [symmetric] False]
      have t: "t = (h, bs, m)"
        and rj: "\<forall>k. i + 1 \<le> k \<and> k < length (group_lists h p) \<longrightarrow> \<not> boxes_overlap (bs ! i) (bs ! k)"
        by simp_all
      from "1.IH" [OF inr t_def False eq "1.prems"(2)] t
      have s: "s' = (h, bs, m)"
        and ri: "\<forall>a k. i + 1 \<le> a \<and> a < k \<and> k < length (group_lists h p) \<longrightarrow>
              \<not> boxes_overlap (bs ! a) (bs ! k)"
        by simp_all
      have "\<not> boxes_overlap (bs ! a) (bs ! k)"
        if "i \<le> a" "a < k" "k < length (group_lists h p)" for a k
      proof (cases "a = i")
        case True
        then show ?thesis using rj that by simp
      next
        case False
        then show ?thesis using ri that by simp
      qed
      then show ?thesis using s by simp
    qed
  qed
qed

lemma merge_passes_apart:
  "merge_passes p s = s' \<Longrightarrow>
   (\<forall>a k. a < k \<and> k < length (group_lists (fst s') p) \<longrightarrow>
       \<not> boxes_overlap (snd s' ! a) (snd s' ! k))"
proof (induction p s arbitrary: s' rule: merge_passes.induct)
  case (1 p h bs)
  define t where "t = scan_i p 0 (h, bs, False)"
  show ?case
  proof (cases "snd (snd t)")
    case True
    then have eq: "merge_passes p (fst t, fst (snd t)) = s'"
      using "1.prems"(1) by (simp add: merge_passes.simps [of p h] t_def Let_def)
    from "1.IH" [OF t_def True eq] show ?thesis .
  next
    case False
    then have s: "s' = (fst t, fst (snd t))"
      using "1.prems"(1) by (simp add: merge_passes.simps [of p h] t_def Let_def)
    from scan_i_clean [OF t_def [symmetric] False] s show ?thesis by simp
  qed
qed

lemma scan_j_nothing:
  "(\<forall>k. j \<le> k \<and> k < length (group_lists (fst s) p) \<longrightarrow>
        \<not> boxes_overlap (fst (snd s) ! i) (fst (snd s) ! k)) \<Longrightarrow> scan_j p i j s = s"
proof (induction p i j s rule: scan_j.induct)
  case (1 p i j h bs m)
  show ?case
  proof (cases "j < length (group_lists h p)")
    case False
    then show ?thesis by (simp add: scan_j.simps [of p i j h])
  next
    case True
    then have no: "\<not> boxes_overlap (bs ! i) (bs ! j)" using "1.prems" by simp
    have "scan_j p i (j + 1) (h, bs, m) = (h, bs, m)"
      using "1.IH"(2) [OF True no] "1.prems" by simp
    then show ?thesis using True no by (simp add: scan_j.simps [of p i j h])
  qed
qed

lemma scan_i_nothing:
  "(\<forall>a k. i \<le> a \<and> a < k \<and> k < length (group_lists (fst s) p) \<longrightarrow>
        \<not> boxes_overlap (fst (snd s) ! a) (fst (snd s) ! k)) \<Longrightarrow> \<not> snd (snd s) \<Longrightarrow>
   scan_i p i s = s"
proof (induction p i s rule: scan_i.induct)
  case (1 p i h bs m)
  show ?case
  proof (cases "i < length (group_lists h p)")
    case False
    then show ?thesis by (simp add: scan_i.simps [of p i h])
  next
    case True
    have j: "scan_j p i (i + 1) (h, bs, m) = (h, bs, m)"
      using "1.prems"(1) by (intro scan_j_nothing) simp
    have "scan_i p (i + 1) (h, bs, m) = (h, bs, m)"
      using "1.IH" [OF True j [symmetric]] "1.prems" by simp
    then show ?thesis using True j "1.prems"(2) by (simp add: scan_i.simps [of p i h] Let_def)
  qed
qed

lemma merge_passes_nothing:
  assumes "\<forall>a k. a < k \<and> k < length (group_lists h p) \<longrightarrow> \<not> boxes_overlap (bs ! a) (bs ! k)"
  shows "merge_passes p (h, bs) = (h, bs)"
proof -
  have "scan_i p 0 (h, bs, False) = (h, bs, False)"
    using assms by (intro scan_i_nothing) simp_all
  then show ?thesis by (simp add: merge_passes.simps [of p h] Let_def)
qed

lemma set_pop_at: "set (pop_at j xs) \<subseteq> set xs"
  by (auto simp: pop_at_def dest: in_set_takeD in_set_dropD)

lemma distinct_pop_at: "distinct xs \<Longrightarrow> distinct (pop_at j xs)"
proof -
  assume d: "distinct xs"
  have "set (take j xs) \<inter> set (drop (Suc j) xs) = {}"
    using d set_take_disj_set_drop_if_distinct [of xs j "Suc j"] by simp
  then show ?thesis using d by (simp add: pop_at_def)
qed

lemma map_pop_at: "map f (pop_at j xs) = pop_at j (map f xs)"
  by (simp add: pop_at_def take_map drop_map)

lemma frame_inv_step: "step_closed p (frame_inv p h0)"
  unfolding step_closed_def
proof (intro allI impI)
  fix h bs i j
  assume a: "frame_inv p h0 (h, bs) \<and> i < j \<and> j < length (group_lists h p)"
  then have i: "group_lists h p ! i \<in> set (group_lists h0 p)"
    by (auto simp: frame_inv_def)
  show "frame_inv p h0 (merge_into p i j h, merge_boxes i j bs)"
    using a i set_pop_at [of j "group_lists h p"]
    by (auto simp: frame_inv_def merge_into_def Let_def)
qed

lemma box_of_append:
  assumes "a \<noteq> []" and "b \<noteq> []"
  shows "box_of (a @ b) = box_union (box_of a) (box_of b)"
  using assms by (simp add: box_of_def image_Un Min_Un Max_Un)

lemma map_upd_distinct:
  "distinct xs \<Longrightarrow> i < length xs \<Longrightarrow> map (f(xs ! i := v)) xs = (map f xs)[i := v]"
  by (auto simp: list_eq_iff_nth_eq nth_eq_iff_index_eq)

lemma mset_concat_update:
  "i < length xs \<Longrightarrow> mset (concat (xs[i := xs ! i @ b])) = mset (concat xs) + mset b"
proof (induction xs arbitrary: i)
  case Nil
  then show ?case by simp
next
  case (Cons a xs)
  then show ?case by (cases i) auto
qed

lemma mset_concat_absorb:
  assumes "i < j" and "j < length xs"
  shows "mset (concat (pop_at j (xs[i := xs ! i @ xs ! j]))) = mset (concat xs)"
proof -
  let ?ys = "xs[i := xs ! i @ xs ! j]"
  have split: "xs = take j xs @ xs ! j # drop (Suc j) xs"
    using assms(2) by (simp add: id_take_nth_drop)
  have t: "take j ?ys = (take j xs)[i := take j xs ! i @ xs ! j]"
    using assms by (simp add: take_update_swap)
  have d: "drop (Suc j) ?ys = drop (Suc j) xs" using assms by simp
  have "mset (concat (pop_at j ?ys)) =
        mset (concat (take j xs)) + mset (xs ! j) + mset (concat (drop (Suc j) xs))"
    unfolding pop_at_def t d using assms mset_concat_update [of i "take j xs" "xs ! j"] by simp
  also have "\<dots> = mset (concat (take j xs @ xs ! j # drop (Suc j) xs))" by simp
  also have "\<dots> = mset (concat xs)" using split by simp
  finally show ?thesis .
qed

lemma merge_inv_step: "step_closed p (merge_inv p M)"
  unfolding step_closed_def
proof (intro allI impI)
  fix h bs i j
  assume a: "merge_inv p M (h, bs) \<and> i < j \<and> j < length (group_lists h p)"
  let ?bg = "group_lists h p" and ?rl = "region_lists h"
  let ?gs = "read_groups h p"
  let ?h' = "merge_into p i j h"
  from a have d: "distinct ?bg" and l2: "list_all2 (\<lambda>g b. g \<noteq> [] \<and> box_of g = b) ?gs bs"
    and m: "mset (concat ?gs) = M" and ij: "i < j" "j < length ?bg"
    by (simp_all add: merge_inv_def)
  have len: "length bs = length ?bg" using list_all2_lengthD [OF l2] by (simp add: read_groups_def)
  have gi: "?gs ! i = ?rl (?bg ! i)" and gj: "?gs ! j = ?rl (?bg ! j)"
    using ij by (simp_all add: read_groups_def)
  have bi: "?gs ! i \<noteq> [] \<and> box_of (?gs ! i) = bs ! i" and bj: "?gs ! j \<noteq> [] \<and> box_of (?gs ! j) = bs ! j"
    using l2 ij by (simp_all add: list_all2_conv_all_nth read_groups_def)
  have gl: "group_lists ?h' p = pop_at j ?bg" by (simp add: merge_into_def Let_def)
  have rl: "region_lists ?h' = ?rl(?bg ! i := ?rl (?bg ! i) @ ?rl (?bg ! j))"
    by (simp add: merge_into_def Let_def)
  have mp: "map (region_lists ?h') ?bg = ?gs[i := ?gs ! i @ ?gs ! j]"
    unfolding rl using map_upd_distinct [OF d, of i ?rl] ij gi gj by (simp add: read_groups_def)
  have "read_groups ?h' p = pop_at j (map (region_lists ?h') ?bg)"
    by (simp only: read_groups_def gl map_pop_at)
  then have rg: "read_groups ?h' p = pop_at j (?gs[i := ?gs ! i @ ?gs ! j])"
    by (simp only: mp)
  have up: "list_all2 (\<lambda>g b. g \<noteq> [] \<and> box_of g = b)
              (?gs[i := ?gs ! i @ ?gs ! j]) (bs[i := box_union (bs ! i) (bs ! j)])"
    using l2 bi bj by (intro list_all2_update_cong) (simp_all add: box_of_append)
  have "list_all2 (\<lambda>g b. g \<noteq> [] \<and> box_of g = b) (read_groups ?h' p) (merge_boxes i j bs)"
    unfolding rg merge_boxes_def pop_at_def
    by (intro list_all2_appendI list_all2_takeI list_all2_dropI up)
  moreover have "distinct (group_lists ?h' p)" unfolding gl using d by (rule distinct_pop_at)
  moreover have "mset (concat (read_groups ?h' p)) = M"
    unfolding rg using mset_concat_absorb [of i j ?gs] ij m by (simp add: read_groups_def)
  ultimately show "merge_inv p M (?h', merge_boxes i j bs)" by (simp add: merge_inv_def)
qed

lemma boxes_of_Inr:
  "boxes_of gs = Inr bs \<Longrightarrow> [] \<notin> set gs \<and> bs = map box_of gs"
proof (induction gs arbitrary: bs)
  case Nil
  then show ?case by simp
next
  case (Cons g gs)
  show ?case
  proof (cases "g = []")
    case True
    then show ?thesis using Cons.prems by (simp add: bubble_box_empty)
  next
    case False
    then show ?thesis using Cons by (auto simp: bubble_box_nonempty split: sum.splits)
  qed
qed

lemma boxes_of_Inl: "boxes_of gs = Inl e \<Longrightarrow> [] \<in> set gs"
proof (induction gs)
  case Nil
  then show ?case by simp
next
  case (Cons g gs)
  then show ?case by (cases "g = []") (auto simp: bubble_box_nonempty split: sum.splits)
qed

lemma boxes_of_nonempty: "[] \<notin> set gs \<Longrightarrow> boxes_of gs = Inr (map box_of gs)"
  by (induction gs) (auto simp: bubble_box_nonempty)

lemma pairwise_apart_nth:
  "pairwise_apart bs \<longleftrightarrow> (\<forall>a k. a < k \<and> k < length bs \<longrightarrow> \<not> boxes_overlap (bs ! a) (bs ! k))"
  by (auto simp: pairwise_apart_def sorted_wrt_iff_nth_less)

text \<open>
  Claim C7, as amended.  \<^verbatim>\<open>merge_overlapping_bubbles\<close> raises only when the list has at
  least two groups and one of them is empty.  Otherwise it returns the list object it was
  given, it changes no other list and no group that is not in that list, and it leaves the
  caller's list and its groups unchanged when no two bounding boxes overlap.
\<close>

theorem merge_overlapping_bubbles_in_place:
  "case merge_overlapping_bubbles h p of
     Inl e \<Rightarrow> [] \<in> set (read_groups h p)
   | Inr (h', q) \<Rightarrow>
       q = p
     \<and> (\<forall>r. r \<noteq> p \<longrightarrow> group_lists h' r = group_lists h r)
     \<and> (\<forall>g. g \<notin> set (group_lists h p) \<longrightarrow> region_lists h' g = region_lists h g)
     \<and> (pairwise_apart (map box_of (read_groups h p)) \<longrightarrow> h' = h)"
proof (cases "length (group_lists h p) \<le> 1")
  case True
  then show ?thesis by (simp add: merge_overlapping_bubbles_def)
next
  case long: False
  show ?thesis
  proof (cases "boxes_of (read_groups h p)")
    case (Inl e)
    then show ?thesis using long boxes_of_Inl [OF Inl] by (simp add: merge_overlapping_bubbles_def)
  next
    case (Inr bs)
    define s' where "s' = merge_passes p (h, bs)"
    have res: "merge_overlapping_bubbles h p = Inr (fst s', p)"
      using long Inr by (simp add: merge_overlapping_bubbles_def s'_def)
    have "frame_inv p h (h, bs)" by (simp add: frame_inv_def)
    from merge_passes_closed [OF s'_def [symmetric] frame_inv_step this]
    have fr: "(\<forall>r. r \<noteq> p \<longrightarrow> group_lists (fst s') r = group_lists h r)
        \<and> (\<forall>g. g \<notin> set (group_lists h p) \<longrightarrow> region_lists (fst s') g = region_lists h g)"
      by (simp add: frame_inv_def)
    have bs: "bs = map box_of (read_groups h p)" using boxes_of_Inr [OF Inr] by simp
    have "fst s' = h" if "pairwise_apart (map box_of (read_groups h p))"
    proof -
      have "\<forall>a k. a < k \<and> k < length (group_lists h p) \<longrightarrow> \<not> boxes_overlap (bs ! a) (bs ! k)"
        using that unfolding bs pairwise_apart_nth by (simp add: read_groups_def)
      from merge_passes_nothing [OF this] show ?thesis by (simp add: s'_def)
    qed
    with fr res show ?thesis by simp
  qed
qed

text \<open>
  Two groups whose boxes do not overlap: the store after the call is the store before it.
\<close>

theorem merge_overlapping_bubbles_in_place_witness:
  "pairwise_apart (map box_of (read_groups (store_groups [strip 0 10, strip 100 10]) 0))
   \<and> merge_overlapping_bubbles (store_groups [strip 0 10, strip 100 10]) 0 =
       Inr (store_groups [strip 0 10, strip 100 10], 0)
   \<and> (1::nat) \<noteq> 0
   \<and> 5 \<notin> set (group_lists (store_groups [strip 0 10, strip 100 10]) 0)"
proof -
  let ?H = "store_groups [strip 0 10, strip 100 10]"
  have a: "pairwise_apart (map box_of (read_groups ?H 0))" by code_simp
  have b: "observe [0, 1] (merge_overlapping_bubbles ?H 0) =
             Some (0, [0, 1], [strip 0 10, strip 100 10])" by code_simp
  then obtain h' q where r: "merge_overlapping_bubbles ?H 0 = Inr (h', q)"
    by (cases "merge_overlapping_bubbles ?H 0") (auto simp: observe_def)
  from merge_overlapping_bubbles_in_place [of ?H 0] r a
  have c: "merge_overlapping_bubbles ?H 0 = Inr (?H, 0)" by simp
  have d: "5 \<notin> set (group_lists ?H 0)" by (simp add: store_groups_def)
  from a c d show ?thesis by simp
qed

text \<open>
  Claim C7 as stated fails: for two groups whose boxes overlap, the caller's list held the
  groups 0 and 1 before the call and holds only group 0 after it, group 0 held one region
  before the call and holds two after it, and the returned list is the argument.
\<close>

theorem merge_overlapping_bubbles_mutates:
  "group_lists (store_groups [strip 0 10, strip 5 10]) 0 = [0, 1]
   \<and> map (region_lists (store_groups [strip 0 10, strip 5 10])) [0, 1] = [strip 0 10, strip 5 10]
   \<and> observe [0, 1] (merge_overlapping_bubbles (store_groups [strip 0 10, strip 5 10]) 0) =
       Some (0, [0], [strip 0 10 @ strip 5 10, strip 5 10])"
proof -
  have "group_lists (store_groups [strip 0 10, strip 5 10]) 0 = [0, 1]" by code_simp
  moreover have "map (region_lists (store_groups [strip 0 10, strip 5 10])) [0, 1] =
      [strip 0 10, strip 5 10]" by code_simp
  moreover have "observe [0, 1] (merge_overlapping_bubbles (store_groups [strip 0 10, strip 5 10]) 0) =
       Some (0, [0], [strip 0 10 @ strip 5 10, strip 5 10])" by code_simp
  ultimately show ?thesis by simp
qed

subsection \<open>Clustering followed by merging\<close>

lemma dbscan_dfs_length:
  "length (dbscan_dfs nb core l i stack labels) = length labels"
proof (induction nb core l i stack labels rule: dbscan_dfs.induct)
  case (1 nb core l i stack labels)
  define labels1 where "labels1 = (if unlabelled labels i then labels[i := Some l] else labels)"
  define stack1 where "stack1 = (if unlabelled labels i \<and> core i
                    then rev (filter (unlabelled labels1) (nb i)) @ stack
                    else stack)"
  have len: "length labels1 = length labels" by (simp add: labels1_def)
  show ?case
  proof (cases stack1)
    case Nil
    then have "dbscan_dfs nb core l i stack labels = labels1"
      by (subst dbscan_dfs.simps) (simp add: Let_def labels1_def [symmetric] stack1_def [symmetric])
    then show ?thesis using len by simp
  next
    case (Cons v stack2)
    then have "dbscan_dfs nb core l i stack labels = dbscan_dfs nb core l v stack2 labels1"
      by (subst dbscan_dfs.simps) (simp add: Let_def labels1_def [symmetric] stack1_def [symmetric])
    then show ?thesis using "1.IH" [OF labels1_def stack1_def Cons] len by simp
  qed
qed

lemma dbscan_outer_length:
  "length (dbscan_outer nb core idxs l labels) = length labels"
  by (induction idxs arbitrary: l labels) (simp_all add: dbscan_dfs_length)

lemma dbscan_labels_length:
  "dbscan_labels eps k points = Inr labels \<Longrightarrow> length labels = length points"
  by (auto simp: dbscan_labels_def Let_def dbscan_outer_length split: if_splits)

lemma dbscan_labels_returns:
  "0 < eps \<Longrightarrow> \<exists>labels. dbscan_labels eps k points = Inr labels"
  by (simp add: dbscan_labels_def Let_def)

lemma add_to_group_mset:
  "mset (concat (map snd (add_to_group acc l r))) = add_mset r (mset (concat (map snd acc)))"
  by (induction acc l r rule: add_to_group.induct) auto

lemma add_to_group_nonempty:
  "[] \<notin> snd ` set acc \<Longrightarrow> [] \<notin> snd ` set (add_to_group acc l r)"
  by (induction acc l r rule: add_to_group.induct) auto

lemma group_by_label_mset:
  "length labels = length regions \<Longrightarrow>
   mset (concat (map snd (group_by_label acc labels regions))) =
     mset (concat (map snd acc)) + mset regions"
proof (induction labels arbitrary: acc regions)
  case Nil
  then show ?case by simp
next
  case (Cons l labels)
  then obtain r rest where r: "regions = r # rest" by (cases regions) auto
  with Cons show ?case by (simp add: add_to_group_mset)
qed

lemma group_by_label_nonempty:
  "[] \<notin> snd ` set acc \<Longrightarrow> [] \<notin> snd ` set (group_by_label acc labels regions)"
proof (induction acc labels regions rule: group_by_label.induct)
  case (1 acc l labels r regions)
  then show ?case by (simp add: add_to_group_nonempty)
qed simp_all

lemma group_text_regions_partition:
  assumes "group_text_regions_by_distance regions eps vw hp = Inr gs"
  shows "mset (concat gs) = mset regions \<and> [] \<notin> set gs"
proof (cases "regions = []")
  case True
  then show ?thesis using assms by (simp add: group_text_regions_by_distance_def)
next
  case False
  let ?pts = "map (center_point vw hp) regions"
  from assms False obtain labels where l: "dbscan_labels eps 1 ?pts = Inr labels"
    and gs: "gs = map snd (group_by_label [] labels regions)"
    by (auto simp: group_text_regions_by_distance_def Let_def split: sum.splits)
  have "length labels = length regions" using dbscan_labels_length [OF l] by simp
  from group_by_label_mset [OF this, of "[]"] group_by_label_nonempty [of "[]" labels regions]
  show ?thesis unfolding gs by simp
qed

lemma group_text_regions_returns:
  "0 < eps \<Longrightarrow> \<exists>gs. group_text_regions_by_distance regions eps vw hp = Inr gs"
  using dbscan_labels_returns [of eps 1 "map (center_point vw hp) regions"]
  by (auto simp: group_text_regions_by_distance_def Let_def)

lemma store_groups_list: "group_lists (store_groups gs) 0 = [0..<length gs]"
  by (simp add: store_groups_def)

lemma store_groups_read: "read_groups (store_groups gs) 0 = gs"
proof -
  have "map (\<lambda>g. if g < length gs then gs ! g else []) [0..<length gs] =
        map (nth gs) [0..<length gs]"
    by (rule map_cong) simp_all
  then show ?thesis by (simp add: read_groups_def store_groups_def map_nth)
qed

lemma boxes_overlap_sym: "boxes_overlap a b = boxes_overlap b a"
  by (cases a, cases b) auto

lemma list_all2_box_of:
  "list_all2 (\<lambda>g b. g \<noteq> [] \<and> box_of g = b) gs bs \<Longrightarrow> bs = map box_of gs \<and> [] \<notin> set gs"
  by (induction rule: list_all2_induct) auto

lemma merge_store_groups:
  assumes "[] \<notin> set gs"
  shows "\<exists>h q. merge_overlapping_bubbles (store_groups gs) 0 = Inr (h, q)
     \<and> mset (concat (read_groups h q)) = mset (concat gs)
     \<and> [] \<notin> set (read_groups h q)
     \<and> pairwise_apart (map box_of (read_groups h q))"
proof (cases "length gs \<le> 1")
  case True
  have "pairwise_apart (map box_of gs)"
  proof (cases gs)
    case Nil
    then show ?thesis by (simp add: pairwise_apart_def)
  next
    case (Cons g rest)
    then have "rest = []" using True by simp
    then show ?thesis using Cons by (simp add: pairwise_apart_def)
  qed
  then show ?thesis using True assms
    by (simp add: merge_overlapping_bubbles_def store_groups_list store_groups_read)
next
  case False
  let ?H = "store_groups gs"
  let ?bs = "map box_of gs"
  define s' where "s' = merge_passes 0 (?H, ?bs)"
  have res: "merge_overlapping_bubbles ?H 0 = Inr (fst s', 0)"
    using False boxes_of_nonempty [OF assms]
    by (simp add: merge_overlapping_bubbles_def store_groups_list store_groups_read s'_def)
  have "list_all2 (\<lambda>g b. g \<noteq> [] \<and> box_of g = b) gs ?bs"
    using assms by (auto simp: list_all2_conv_all_nth in_set_conv_nth)
  then have "merge_inv 0 (mset (concat gs)) (?H, ?bs)"
    by (simp add: merge_inv_def store_groups_list store_groups_read)
  from merge_passes_closed [OF s'_def [symmetric] merge_inv_step this]
  have l2: "list_all2 (\<lambda>g b. g \<noteq> [] \<and> box_of g = b) (read_groups (fst s') 0) (snd s')"
    and m: "mset (concat (read_groups (fst s') 0)) = mset (concat gs)"
    by (simp_all add: merge_inv_def)
  have ne: "[] \<notin> set (read_groups (fst s') 0)"
    and bs: "snd s' = map box_of (read_groups (fst s') 0)"
    using list_all2_box_of [OF l2] by simp_all
  have len: "length (read_groups (fst s') 0) = length (group_lists (fst s') 0)"
    by (simp add: read_groups_def)
  from merge_passes_apart [OF s'_def [symmetric]]
  have "pairwise_apart (snd s')"
    unfolding pairwise_apart_nth using list_all2_lengthD [OF l2] len by simp
  then have "pairwise_apart (map box_of (read_groups (fst s') 0))" using bs by simp
  with res m ne show ?thesis by simp
qed

text \<open>
  Claim C4.  For every list of fragments (and every positive \<open>eps\<close>), clustering
  followed by merging succeeds and yields groups such that every input fragment is in
  exactly one of them (the groups together hold the fragments of the input, each as often
  as the input does), no group is empty, and the bounding boxes of two different groups
  never overlap under the strict rectangle test.
\<close>

theorem cluster_and_merge_partition:
  assumes "0 < eps"
  shows "\<exists>out. cluster_and_merge regions eps vertical_weight horizontal_penalty = Inr out
       \<and> mset (concat out) = mset regions
       \<and> [] \<notin> set out
       \<and> (\<forall>i<length out. \<forall>j<length out. i \<noteq> j \<longrightarrow>
            \<not> boxes_overlap (box_of (out ! i)) (box_of (out ! j)))"
proof -
  from group_text_regions_returns [OF assms] obtain gs where
    gs: "group_text_regions_by_distance regions eps vertical_weight horizontal_penalty = Inr gs"
    by blast
  from group_text_regions_partition [OF gs]
  have part: "mset (concat gs) = mset regions" and ne: "[] \<notin> set gs" by simp_all
  from merge_store_groups [OF ne] obtain h q where
    mg: "merge_overlapping_bubbles (store_groups gs) 0 = Inr (h, q)"
    and m: "mset (concat (read_groups h q)) = mset (concat gs)"
    and n: "[] \<notin> set (read_groups h q)"
    and ap: "pairwise_apart (map box_of (read_groups h q))" by blast
  let ?out = "read_groups h q"
  have res: "cluster_and_merge regions eps vertical_weight horizontal_penalty = Inr ?out"
    using gs mg by (simp add: cluster_and_merge_def)
  have "\<not> boxes_overlap (box_of (?out ! i)) (box_of (?out ! j))"
    if "i < length ?out" "j < length ?out" "i \<noteq> j" for i j
  proof (cases "i < j")
    case True
    then show ?thesis using ap that unfolding pairwise_apart_nth by auto
  next
    case False
    then have "j < i" using that by simp
    then have "\<not> boxes_overlap (box_of (?out ! j)) (box_of (?out ! i))"
      using ap that unfolding pairwise_apart_nth by auto
    then show ?thesis by (simp add: boxes_overlap_sym)
  qed
  with res m part n show ?thesis by auto
qed

text \<open>
  Three fragments: the clusterer separates all three, the boxes of the first two overlap
  and the merger joins them.
\<close>

theorem cluster_and_merge_partition_witness:
  "(0::rat) < 225
   \<and> cluster_and_merge [wide 0 700 ''a'', wide 650 500 ''b'', wide 3000 100 ''c''] 225 (3 / 2) (3 / 4) =
       Inr [[wide 0 700 ''a'', wide 650 500 ''b''], [wide 3000 100 ''c'']]
   \<and> group_text_regions_by_distance [wide 0 700 ''a'', wide 650 500 ''b'', wide 3000 100 ''c'']
        225 (3 / 2) (3 / 4) =
       Inr [[wide 0 700 ''a''], [wide 650 500 ''b''], [wide 3000 100 ''c'']]
   \<and> (0::nat) < 2 \<and> (1::nat) < 2 \<and> (0::nat) \<noteq> 1
   \<and> \<not> boxes_overlap (box_of [wide 0 700 ''a'', wide 650 500 ''b'']) (box_of [wide 3000 100 ''c''])"
proof -
  let ?R = "[wide 0 700 ''a'', wide 650 500 ''b'', wide 3000 100 ''c'']"
  let ?out = "[[wide 0 700 ''a'', wide 650 500 ''b''], [wide 3000 100 ''c'']]"
  have a: "(0::rat) < 225" by simp
  have b: "cluster_and_merge ?R 225 (3 / 2) (3 / 4) = Inr ?out" by code_simp
  have c: "group_text_regions_by_distance ?R 225 (3 / 2) (3 / 4) =
       Inr [[wide 0 700 ''a''], [wide 650 500 ''b''], [wide 3000 100 ''c'']]" by code_simp
  from cluster_and_merge_partition [OF a, of ?R "3 / 2" "3 / 4"] b
  have "\<forall>i<length ?out. \<forall>j<length ?out. i \<noteq> j \<longrightarrow>
            \<not> boxes_overlap (box_of (?out ! i)) (box_of (?out ! j))" by simp
  then have "0 < length ?out \<longrightarrow> 1 < length ?out \<longrightarrow> (0::nat) \<noteq> 1 \<longrightarrow>
      \<not> boxes_overlap (box_of (?out ! 0)) (box_of (?out ! 1))" by blast
  then have d: "\<not> boxes_overlap (box_of [wide 0 700 ''a'', wide 650 500 ''b''])
      (box_of [wide 3000 100 ''c''])" by simp
  from a b c d show ?thesis by simp
qed

end
